theory Spec2Isabelle
  imports Main
begin

text \<open>
  A model of statsdtee, the UDP tee for statsd packets: the program of \<open>main.go\<close>
  (version 0.3.1, a listener and a router joined by a channel) and its earlier form
  (version 0.1, one loop that reads and routes). The parser and the loops of the router
  are the same text in both and are modelled once.
\<close>

section \<open>Byte slices\<close>

text \<open>
  A Go \<open>[]byte\<close> is a list of 8-bit characters. Indexing a slice out of range panics in
  Go, so reading an element returns a sum with the panic on the left.
\<close>

type_synonym bytes = "char list"

datatype panic = IndexOutOfRange | MustCompile

definition index :: "'a list \<Rightarrow> nat \<Rightarrow> panic + 'a" where
  "index xs i = (if i < length xs then Inr (xs ! i) else Inl IndexOutOfRange)"

abbreviation colon :: char where
  "colon \<equiv> CHR '':''"

abbreviation newline :: char where
  "newline \<equiv> CHR 0x0A"

text \<open>\<open>bytes.IndexByte\<close>: the position of the first occurrence of a byte, if any.\<close>

fun IndexByte :: "bytes \<Rightarrow> char \<Rightarrow> nat option" where
  "IndexByte [] c = None"
| "IndexByte (x # xs) c = (if x = c then Some 0 else map_option Suc (IndexByte xs c))"

text \<open>
  \<open>bytes.Split(s, sep)\<close> for a separator of one byte, as \<open>parseMessage\<close> calls it: cut at
  the first separator, keep the part before it, go on behind it; the rest without any
  separator is the last piece. The result is never empty (an empty input gives one empty
  piece).
\<close>

function Split :: "bytes \<Rightarrow> char \<Rightarrow> bytes list" where
  "Split s sep =
     (case IndexByte s sep of
        None \<Rightarrow> [s]
      | Some m \<Rightarrow> take m s # Split (drop (m + 1) s) sep)"
  by pat_completeness auto
termination
proof (relation "measure (\<lambda>(s, sep). length s)")
  show "wf (measure (\<lambda>(s, sep). length s))"
    by simp
next
  fix s :: bytes and sep :: char and m :: nat
  assume found: "IndexByte s sep = Some m"
  have "\<And>k. IndexByte s sep = Some k \<Longrightarrow> k < length s"
    by (induction s) (auto split: if_splits)
  with found have "m < length s"
    by blast
  then show "((drop (m + 1) s, sep), (s, sep)) \<in> measure (\<lambda>(s, sep). length s)"
    by simp
qed

declare Split.simps [simp del]

section \<open>Record parser\<close>

record Packet =
  Key :: bytes
  Body :: bytes

text \<open>
  \<open>packetRegexp = regexp.MustCompile("^([^:]+):(.*)$")\<close>. The meaning of the pattern on a
  whole line: the line is a non-empty run of non-colon bytes (group 1), one colon, and
  any bytes except newline up to the end of the text (group 2; \<open>.\<close> does not match a
  newline and there is no multi-line flag). The colon and the newline are single bytes
  that occur in no longer UTF-8 sequence, and a byte that is no valid UTF-8 counts as
  one replacement character, which the class and the dot both accept; so the meaning can
  be given on bytes.
\<close>

definition packetRegexp_matches :: "bytes \<Rightarrow> bytes \<Rightarrow> bytes \<Rightarrow> bool" where
  "packetRegexp_matches line k b \<longleftrightarrow>
     line = k @ colon # b \<and> k \<noteq> [] \<and> colon \<notin> set k \<and> newline \<notin> set b"

text \<open>
  \<open>packetRegexp.FindSubmatch(line)\<close>: the greedy group 1 takes every byte before the
  first colon and must take at least one; the colon follows; the greedy group 2 takes
  the rest, which must reach the end of the text. The result is the slice
  \<open>[whole match, group 1, group 2]\<close>, or the nil slice when the line does not match.
\<close>

definition packetRegexp_FindSubmatch :: "bytes \<Rightarrow> bytes list" where
  "packetRegexp_FindSubmatch line =
     (let k = takeWhile (\<lambda>c. c \<noteq> colon) line;
          rest = dropWhile (\<lambda>c. c \<noteq> colon) line
      in if k = [] then []
         else (case rest of
                 [] \<Rightarrow> []
               | c # b \<Rightarrow> if newline \<in> set b then [] else [line, k, b]))"

text \<open>
  The loop of \<open>parseMessage\<close> over the lines, with \<open>output\<close> as the slice built so far.
  \<open>item[1]\<close> and \<open>item[2]\<close> are checked reads.
\<close>

fun parseMessage_loop :: "bytes list \<Rightarrow> Packet list \<Rightarrow> panic + Packet list" where
  "parseMessage_loop [] output = Inr output"
| "parseMessage_loop (line # lines) output =
     (if length line = 0 then parseMessage_loop lines output
      else
        let item = packetRegexp_FindSubmatch line in
        if length item = 0 then parseMessage_loop lines output
        else
          (case index item 1 of
             Inl e \<Rightarrow> Inl e
           | Inr k \<Rightarrow>
               (case index item 2 of
                  Inl e \<Rightarrow> Inl e
                | Inr b \<Rightarrow> parseMessage_loop lines (output @ [\<lparr>Key = k, Body = b\<rparr>]))))"

definition parseMessage :: "bytes \<Rightarrow> panic + Packet list" where
  "parseMessage data = parseMessage_loop (Split data newline) []"

text \<open>
  For stating what the parser does: \<open>bytes.Join\<close> with a separator of one byte (the lines
  of a buffer put together again), and the packets that one line contributes.
\<close>

fun Join :: "bytes list \<Rightarrow> char \<Rightarrow> bytes" where
  "Join [] sep = []"
| "Join [l] sep = l"
| "Join (l # ls) sep = l @ sep # Join ls sep"

definition packets_of_line :: "bytes \<Rightarrow> Packet list" where
  "packets_of_line line =
     (if line = [] then []
      else (case packetRegexp_FindSubmatch line of
              [whole, k, b] \<Rightarrow> [\<lparr>Key = k, Body = b\<rparr>]
            | _ \<Rightarrow> []))"

section \<open>Key rewriter\<close>

text \<open>
  Modelled from the spec: \<open>regexp.Regexp\<close> and its method \<open>ReplaceAll\<close> belong to Go's
  standard library and are not under \<open>src/\<close>. A compiled pattern is taken as a parameter:
  its matcher (\<open>doExecute re src pos\<close> is the leftmost match that starts at or behind
  \<open>pos\<close>, as the positions of the whole match followed by those of the groups, and
  \<open>[]\<close> when there is none) and its template expansion (\<open>expand re template src m\<close>
  is the template with the back-references to the groups of \<open>m\<close> filled in).
  \<open>ReplaceAll\<close> follows the spec's words: every non-overlapping match, from left to
  right, is replaced by the expanded template; the bytes outside the matches are copied;
  an empty match right behind another match is not replaced a second time. Positions
  advance by bytes.
\<close>

type_synonym span = "nat \<times> nat"

record regexp =
  doExecute :: "bytes \<Rightarrow> nat \<Rightarrow> span list"
  expand :: "bytes \<Rightarrow> bytes \<Rightarrow> span list \<Rightarrow> bytes"

function replaceAll_loop ::
  "regexp \<Rightarrow> bytes \<Rightarrow> bytes \<Rightarrow> nat \<Rightarrow> nat \<Rightarrow> bytes \<Rightarrow> bytes" where
  "replaceAll_loop re src repl lastMatchEnd searchPos buf =
     (if searchPos \<le> length src then
        (case doExecute re src searchPos of
           [] \<Rightarrow> buf @ drop lastMatchEnd src
         | (s, e) # groups \<Rightarrow>
             replaceAll_loop re src repl e
               (if searchPos + 1 > e then searchPos + 1 else e)
               ((buf @ take (s - lastMatchEnd) (drop lastMatchEnd src)) @
                (if e > lastMatchEnd \<or> s = 0 then expand re repl src ((s, e) # groups)
                 else [])))
      else buf @ drop lastMatchEnd src)"
  by pat_completeness auto
termination
  by (relation "measure (\<lambda>(re, src, repl, lastMatchEnd, searchPos, buf).
        length src + 1 - searchPos)") auto

declare replaceAll_loop.simps [simp del]

definition ReplaceAll :: "regexp \<Rightarrow> bytes \<Rightarrow> bytes \<Rightarrow> bytes" where
  "ReplaceAll re src repl = replaceAll_loop re src repl 0 0 []"

text \<open>
  A pattern \<open>^lit\<close> for a literal \<open>lit\<close>, with templates that hold no \<open>$\<close>: it
  matches at position 0 only, where the input starts with \<open>lit\<close>, and a template
  expands to itself.
\<close>

definition anchored_literal :: "bytes \<Rightarrow> regexp" where
  "anchored_literal lit =
     \<lparr>doExecute = (\<lambda>src pos. if pos = 0 \<and> take (length lit) src = lit
                                then [(0, length lit)] else []),
      expand = (\<lambda>template src m. template)\<rparr>"

record Destination =
  Address :: string
  Regex :: regexp
  Replace :: bytes

text \<open>\<open>fmt.Sprintf("%s:%s", key, body)\<close> on two byte slices.\<close>

definition Sprintf_s_colon_s :: "bytes \<Rightarrow> bytes \<Rightarrow> bytes" where
  "Sprintf_s_colon_s a b = a @ [colon] @ b"

section \<open>Network, log and process\<close>

text \<open>
  The program talks to the network and the log. Every such call is an event of a trace,
  in program order; what the network answers is the environment: the error, if any, of
  the \<open>k\<close>-th call of each kind, and the datagram the \<open>k\<close>-th read receives. The program
  is deterministic once the environment is fixed. \<open>log.Fatalf\<close> writes the line and
  ends the process with status 1; a panic ends it as well.
\<close>

datatype conn = Conn (conn_id: nat) (RemoteAddr: string)

datatype arg = ArgS bytes | ArgD nat | ArgErr string

datatype event =
    EvListen string "string option"
  | EvSetReadBuffer nat "string option"
  | EvDial string nat "string + conn"
  | EvWrite conn bytes "string option"
  | EvClose conn
  | EvRead nat "string + bytes"
  | EvLog string "arg list"
  | EvPrint string "arg list"

datatype stop = Exit nat | Panic panic

record env =
  listen_err :: "string option"
  setbuf_err :: "string option"
  dial_err :: "nat \<Rightarrow> string option"
  write_err :: "nat \<Rightarrow> string option"
  incoming :: "nat \<Rightarrow> string \<times> (string + bytes)"
  compile :: "string \<Rightarrow> regexp option"
  runtime_Version :: string

text \<open>
  The state of the world: how many calls of each kind were made, the buffers allocated
  by \<open>make\<close> (a buffer is named by its address, the number of the allocation) and the
  trace.
\<close>

record world =
  dials :: nat
  writes :: nat
  reads :: nat
  allocs :: nat
  heap :: "nat \<Rightarrow> bytes"
  trace :: "event list"

type_synonym 'a io = "(stop + 'a) \<times> world"

definition world0 :: world where
  "world0 = \<lparr>dials = 0, writes = 0, reads = 0, allocs = 0, heap = (\<lambda>a. []), trace = []\<rparr>"

definition emit :: "event \<Rightarrow> world \<Rightarrow> world" where
  "emit e w = w\<lparr>trace := trace w @ [e]\<rparr>"

text \<open>\<open>time.Second\<close>, a duration in nanoseconds.\<close>

definition Second :: nat where
  "Second = 1000000000"

definition net_DialTimeout :: "env \<Rightarrow> string \<Rightarrow> nat \<Rightarrow> world \<Rightarrow> (string + conn) \<times> world" where
  "net_DialTimeout E address timeout w =
     (let r = (case dial_err E (dials w) of
                 None \<Rightarrow> Inr (Conn (dials w) address)
               | Some err \<Rightarrow> Inl err)
      in (r, emit (EvDial address timeout r) (w\<lparr>dials := dials w + 1\<rparr>)))"

definition conn_Write :: "env \<Rightarrow> conn \<Rightarrow> bytes \<Rightarrow> world \<Rightarrow> string option \<times> world" where
  "conn_Write E c b w =
     (let r = write_err E (writes w)
      in (r, emit (EvWrite c b r) (w\<lparr>writes := writes w + 1\<rparr>)))"

definition conn_Close :: "conn \<Rightarrow> world \<Rightarrow> world" where
  "conn_Close c w = emit (EvClose c) w"

definition log_Printf :: "string \<Rightarrow> arg list \<Rightarrow> world \<Rightarrow> world" where
  "log_Printf format args w = emit (EvLog format args) w"

definition log_Fatalf :: "string \<Rightarrow> arg list \<Rightarrow> world \<Rightarrow> 'a io" where
  "log_Fatalf format args w = (Inl (Exit 1), emit (EvLog format args) w)"

section \<open>Fan-out router\<close>

text \<open>
  The first loop of \<open>processData\<close> (and of \<open>udpListener\<close> in version 0.1): one connection
  per destination, in order; a failed dial is fatal.
\<close>

fun dial_all :: "env \<Rightarrow> Destination list \<Rightarrow> conn list \<Rightarrow> world \<Rightarrow> conn list io" where
  "dial_all E [] destConns w = (Inr destConns, w)"
| "dial_all E (destination # rest) destConns w =
     (case net_DialTimeout E (Address destination) Second w of
        (Inl err, w1) \<Rightarrow> log_Fatalf ''ERROR: UDP connection failed - %s'' [ArgErr err] w1
      | (Inr c, w1) \<Rightarrow> dial_all E rest (destConns @ [c]) w1)"

text \<open>
  The body of the innermost loop, for the packet \<open>p\<close> and the destination of index \<open>i\<close>:
  rewrite the key, format the packet, write it to \<open>destConns[i]\<close>; when the write fails,
  log, close the connection and dial again, which is fatal when it fails and otherwise
  stores the new connection in \<open>destConns[i]\<close>.
\<close>

definition send_one ::
  "env \<Rightarrow> Packet \<Rightarrow> nat \<Rightarrow> Destination \<Rightarrow> conn list \<Rightarrow> world \<Rightarrow> conn list io" where
  "send_one E p i destination destConns w =
     (let key = ReplaceAll (Regex destination) (Key p) (Replace destination);
          packet = Sprintf_s_colon_s key (Body p)
      in case index destConns i of
           Inl e \<Rightarrow> (Inl (Panic e), w)
         | Inr c \<Rightarrow>
             (case conn_Write E c packet w of
                (None, w1) \<Rightarrow> (Inr destConns, w1)
              | (Some err, w1) \<Rightarrow>
                  (let w2 = log_Printf ''ERROR: writing to UDP socket - %s'' [ArgErr err] w1;
                       w3 = conn_Close c w2
                   in case net_DialTimeout E (Address destination) Second w3 of
                        (Inl err2, w4) \<Rightarrow>
                          log_Fatalf ''ERROR: UDP connection failed - %s'' [ArgErr err2] w4
                      | (Inr c2, w4) \<Rightarrow> (Inr (destConns[i := c2]), w4))))"

text \<open>\<open>for i, destination := range destinations\<close>, from index \<open>i\<close> on.\<close>

fun range_destinations ::
  "env \<Rightarrow> Packet \<Rightarrow> nat \<Rightarrow> Destination list \<Rightarrow> conn list \<Rightarrow> world \<Rightarrow> conn list io" where
  "range_destinations E p i [] destConns w = (Inr destConns, w)"
| "range_destinations E p i (destination # rest) destConns w =
     (case send_one E p i destination destConns w of
        (Inl s, w1) \<Rightarrow> (Inl s, w1)
      | (Inr destConns1, w1) \<Rightarrow> range_destinations E p (i + 1) rest destConns1 w1)"

text \<open>\<open>for _, p := range parseMessage(data)\<close>, over the packets already parsed.\<close>

fun range_packets ::
  "env \<Rightarrow> Packet list \<Rightarrow> Destination list \<Rightarrow> conn list \<Rightarrow> world \<Rightarrow> conn list io" where
  "range_packets E [] destinations destConns w = (Inr destConns, w)"
| "range_packets E (p # ps) destinations destConns w =
     (case range_destinations E p 0 destinations destConns w of
        (Inl s, w1) \<Rightarrow> (Inl s, w1)
      | (Inr destConns1, w1) \<Rightarrow> range_packets E ps destinations destConns1 w1)"

text \<open>The routing of one datagram: parse it, then fan every packet out.\<close>

definition route :: "env \<Rightarrow> bytes \<Rightarrow> Destination list \<Rightarrow> conn list \<Rightarrow> world \<Rightarrow> conn list io" where
  "route E data destinations destConns w =
     (case parseMessage data of
        Inl e \<Rightarrow> (Inl (Panic e), w)
      | Inr ps \<Rightarrow> range_packets E ps destinations destConns w)"

section \<open>Ingress listener\<close>

text \<open>
  \<open>make([]byte, n)\<close>: a new buffer of \<open>n\<close> zero bytes at an address never used before.
\<close>

definition make_bytes :: "nat \<Rightarrow> world \<Rightarrow> nat \<times> world" where
  "make_bytes n w =
     (allocs w, w\<lparr>allocs := allocs w + 1, heap := (heap w)(allocs w := replicate n (CHR 0x00))\<rparr>)"

text \<open>
  \<open>listener.ReadFromUDP(message)\<close> on the buffer at address \<open>a\<close>: the next datagram is
  copied into the buffer as far as it fits and the rest of it is lost; the bytes of the
  buffer behind the copy stay as they were. The result is the number of bytes stored,
  the sender and the error.
\<close>

definition ReadFromUDP :: "env \<Rightarrow> nat \<Rightarrow> world \<Rightarrow> (nat \<times> string \<times> string option) \<times> world" where
  "ReadFromUDP E a w =
     (let (remaddr, r) = incoming E (reads w);
          w1 = w\<lparr>reads := reads w + 1\<rparr>
      in case r of
           Inl err \<Rightarrow> ((0, remaddr, Some err), emit (EvRead a (Inl err)) w1)
         | Inr payload \<Rightarrow>
             (let buf = heap w a;
                  n = min (length payload) (length buf)
              in ((n, remaddr, None),
                  emit (EvRead a (Inr (take n payload)))
                    (w1\<lparr>heap := (heap w)(a := take n payload @ drop n buf)\<rparr>))))"

text \<open>A slice \<open>message[:n]\<close>: the address of its buffer and its length.\<close>

record slice =
  ptr :: nat
  len :: nat

definition slice_bytes :: "world \<Rightarrow> slice \<Rightarrow> bytes" where
  "slice_bytes w sl = take (len sl) (heap w (ptr sl))"

text \<open>
  \<open>udpListener\<close> of \<open>main.go\<close> up to its loop: resolve and bind the address (a failure is
  fatal), enlarge the read buffer of the socket to 1 MiB (a failure is logged).
\<close>

definition udpListener_start :: "env \<Rightarrow> string \<Rightarrow> world \<Rightarrow> unit io" where
  "udpListener_start E addr w =
     (let w1 = log_Printf ''listening on %s'' [ArgS addr] w;
          w2 = emit (EvListen addr (listen_err E)) w1
      in case listen_err E of
           Some err \<Rightarrow> log_Fatalf ''ERROR: ListenUDP - %s'' [ArgErr err] w2
         | None \<Rightarrow>
             (let w3 = emit (EvSetReadBuffer (1024 * 1024) (setbuf_err E)) w2
              in case setbuf_err E of
                   Some err \<Rightarrow> (Inr (), log_Printf ''ERROR: SetReadBuffer - %s'' [ArgErr err] w3)
                 | None \<Rightarrow> (Inr (), w3)))"

text \<open>
  One pass of the loop of \<open>udpListener\<close> of \<open>main.go\<close>, up to the send on the channel:
  allocate the buffer, read into it; a read error is logged and the pass ends; otherwise
  the slice \<open>message[:n]\<close> is what goes to \<open>dataCh\<close>.
\<close>

definition udpListener_iteration :: "env \<Rightarrow> world \<Rightarrow> slice option \<times> world" where
  "udpListener_iteration E w =
     (let (message, w1) = make_bytes 512 w;
          ((n, remaddr, err), w2) = ReadFromUDP E message w1
      in case err of
           Some e \<Rightarrow>
             (None, log_Printf ''ERROR: reading UDP packet from %+v - %s''
                      [ArgS remaddr, ArgErr e] w2)
         | None \<Rightarrow>
             (Some \<lparr>ptr = message, len = n\<rparr>,
              log_Printf ''msg: %s (%d)'' [ArgS (take n (heap w2 message)), ArgD n] w2))"

section \<open>The program of main.go\<close>

text \<open>
  Two goroutines run side by side: \<open>udpListener\<close> fills the channel \<open>dataCh\<close> (capacity
  1000) and \<open>processData\<close> drains it. A schedule says whose turn it is; a turn is the
  start of a goroutine or one pass of its loop. A listener that finds the channel full
  keeps its slice until there is room; a router that finds the channel empty waits.
  The loops never end by themselves: a run is what a finite schedule has done so far.
\<close>

datatype turn = Listener | Router

record sys =
  listening :: bool
  pending :: "slice option"
  dataCh :: "slice list"
  connected :: bool
  destConns :: "conn list"

definition sys0 :: sys where
  "sys0 = \<lparr>listening = False, pending = None, dataCh = [], connected = False, destConns = []\<rparr>"

definition udpListener_step :: "env \<Rightarrow> string \<Rightarrow> sys \<Rightarrow> world \<Rightarrow> sys io" where
  "udpListener_step E addr s w =
     (if \<not> listening s then
        (case udpListener_start E addr w of
           (Inl st, w1) \<Rightarrow> (Inl st, w1)
         | (Inr u, w1) \<Rightarrow> (Inr (s\<lparr>listening := True\<rparr>), w1))
      else
        (case pending s of
           Some sl \<Rightarrow>
             if length (dataCh s) < 1000
             then (Inr (s\<lparr>dataCh := dataCh s @ [sl], pending := None\<rparr>), w)
             else (Inr s, w)
         | None \<Rightarrow>
             (case udpListener_iteration E w of
                (None, w1) \<Rightarrow> (Inr s, w1)
              | (Some sl, w1) \<Rightarrow>
                  if length (dataCh s) < 1000
                  then (Inr (s\<lparr>dataCh := dataCh s @ [sl]\<rparr>), w1)
                  else (Inr (s\<lparr>pending := Some sl\<rparr>), w1))))"

definition processData_step :: "env \<Rightarrow> Destination list \<Rightarrow> sys \<Rightarrow> world \<Rightarrow> sys io" where
  "processData_step E destinations s w =
     (if \<not> connected s then
        (case dial_all E destinations [] w of
           (Inl st, w1) \<Rightarrow> (Inl st, w1)
         | (Inr cs, w1) \<Rightarrow> (Inr (s\<lparr>connected := True, destConns := cs\<rparr>), w1))
      else
        (case dataCh s of
           [] \<Rightarrow> (Inr s, w)
         | data # rest \<Rightarrow>
             (case route E (slice_bytes w data) destinations (destConns s) w of
                (Inl st, w1) \<Rightarrow> (Inl st, w1)
              | (Inr cs, w1) \<Rightarrow> (Inr (s\<lparr>dataCh := rest, destConns := cs\<rparr>), w1))))"

fun run :: "env \<Rightarrow> string \<Rightarrow> Destination list \<Rightarrow> turn list \<Rightarrow> sys \<Rightarrow> world \<Rightarrow> sys io" where
  "run E addr destinations [] s w = (Inr s, w)"
| "run E addr destinations (t # ts) s w =
     (case (case t of
              Listener \<Rightarrow> udpListener_step E addr s w
            | Router \<Rightarrow> processData_step E destinations s w) of
        (Inl st, w1) \<Rightarrow> (Inl st, w1)
      | (Inr s1, w1) \<Rightarrow> run E addr destinations ts s1 w1)"

text \<open>
  The flags, and the loop of \<open>main\<close> that turns each \<open>--destination-address\<close> of the form
  \<open>host:port:regex:replacement\<close> into a Destination. \<open>parts[k]\<close> is a checked read and
  \<open>regexp.MustCompile\<close> panics on a pattern that does not compile.
\<close>

record flags =
  address :: string
  destinationAddresses :: "string list"
  showVersion :: bool

fun parse_destinations :: "env \<Rightarrow> string list \<Rightarrow> Destination list \<Rightarrow> panic + Destination list" where
  "parse_destinations E [] destinations = Inr destinations"
| "parse_destinations E (destinationAddress # rest) destinations =
     (let parts = Split destinationAddress colon
      in case index parts 0 of
           Inl e \<Rightarrow> Inl e
         | Inr host \<Rightarrow>
             (case index parts 1 of
                Inl e \<Rightarrow> Inl e
              | Inr port \<Rightarrow>
                  (case index parts 2 of
                     Inl e \<Rightarrow> Inl e
                   | Inr pattern \<Rightarrow>
                       (case compile E pattern of
                          None \<Rightarrow> Inl MustCompile
                        | Some re \<Rightarrow>
                            (case index parts 3 of
                               Inl e \<Rightarrow> Inl e
                             | Inr replacement \<Rightarrow>
                                 parse_destinations E rest
                                   (destinations @
                                    [\<lparr>Address = Sprintf_s_colon_s host port, Regex = re,
                                      Replace = replacement\<rparr>]))))))"

definition VERSION :: string where
  "VERSION = ''0.3.1''"

text \<open>
  \<open>main\<close> of \<open>main.go\<close>. Returning from \<open>main\<close> ends the process with status 0.
  \<open>runtime.GOMAXPROCS\<close> and \<open>signal.Notify\<close> have no effect on the trace.
\<close>

definition main :: "env \<Rightarrow> flags \<Rightarrow> turn list \<Rightarrow> world \<Rightarrow> sys io" where
  "main E f schedule w =
     (if showVersion f then
        (Inl (Exit 0),
         emit (EvPrint ''statsdtee v%s (built w/%s)\<newline>'' [ArgS VERSION, ArgS (runtime_Version E)]) w)
      else
        (case parse_destinations E (destinationAddresses f) [] of
           Inl e \<Rightarrow> (Inl (Panic e), w)
         | Inr destinations \<Rightarrow>
             if length destinations = 0
             then log_Fatalf ''must specify at least one --destination-address'' [] w
             else run E (address f) destinations schedule sys0 w))"

section \<open>The program of version 0.1\<close>

text \<open>
  In version 0.1 (\<open>src/unnamed/part_000\<close>) \<open>udpListener\<close> does everything in one loop:
  bind, dial every destination, allocate one buffer, and then read a datagram into that
  buffer and route it, pass after pass. \<open>udpListener_v01_read\<close> is the first half of a
  pass: the read into the buffer \<open>message\<close>, the log line, and the bytes \<open>message[:n]\<close>
  that go to \<open>parseMessage\<close>, or nothing after a read error. The loop never ends by
  itself: \<open>passes\<close> is the number of passes made so far.
\<close>

definition udpListener_v01_read :: "env \<Rightarrow> nat \<Rightarrow> world \<Rightarrow> bytes option \<times> world" where
  "udpListener_v01_read E message w =
     (let ((n, remaddr, err), w1) = ReadFromUDP E message w
      in case err of
           Some e \<Rightarrow>
             (None, log_Printf ''ERROR: reading UDP packet from %+v - %s''
                      [ArgS remaddr, ArgErr e] w1)
         | None \<Rightarrow>
             (Some (take n (heap w1 message)),
              log_Printf ''message: %s (%d)'' [ArgS (take n (heap w1 message)), ArgD n] w1))"

fun udpListener_v01_loop ::
  "env \<Rightarrow> Destination list \<Rightarrow> nat \<Rightarrow> nat \<Rightarrow> conn list \<Rightarrow> world \<Rightarrow> conn list io" where
  "udpListener_v01_loop E destinations message 0 cs w = (Inr cs, w)"
| "udpListener_v01_loop E destinations message (Suc passes) cs w =
     (case udpListener_v01_read E message w of
        (None, w1) \<Rightarrow> udpListener_v01_loop E destinations message passes cs w1
      | (Some data, w1) \<Rightarrow>
          (case route E data destinations cs w1 of
             (Inl st, w2) \<Rightarrow> (Inl st, w2)
           | (Inr cs1, w2) \<Rightarrow> udpListener_v01_loop E destinations message passes cs1 w2))"

definition udpListener_v01 :: "env \<Rightarrow> string \<Rightarrow> Destination list \<Rightarrow> nat \<Rightarrow> world \<Rightarrow> conn list io" where
  "udpListener_v01 E addr destinations passes w =
     (let w1 = log_Printf ''listening on %s'' [ArgS addr] w;
          w2 = emit (EvListen addr (listen_err E)) w1
      in case listen_err E of
           Some err \<Rightarrow> log_Fatalf ''ERROR: ListenUDP - %s'' [ArgErr err] w2
         | None \<Rightarrow>
             (case dial_all E destinations [] w2 of
                (Inl st, w3) \<Rightarrow> (Inl st, w3)
              | (Inr cs, w3) \<Rightarrow>
                  (let (message, w4) = make_bytes 512 w3
                   in udpListener_v01_loop E destinations message passes cs w4)))"

definition VERSION_v01 :: string where
  "VERSION_v01 = ''0.1''"

definition main_v01 :: "env \<Rightarrow> flags \<Rightarrow> nat \<Rightarrow> world \<Rightarrow> conn list io" where
  "main_v01 E f passes w =
     (if showVersion f then
        (Inl (Exit 0),
         emit (EvPrint ''statsdtee v%s (built w/%s)\<newline>''
                 [ArgS VERSION_v01, ArgS (runtime_Version E)]) w)
      else
        (case parse_destinations E (destinationAddresses f) [] of
           Inl e \<Rightarrow> (Inl (Panic e), w)
         | Inr destinations \<Rightarrow>
             if length destinations = 0
             then log_Fatalf ''must specify at least one --destination-address'' [] w
             else udpListener_v01 E (address f) destinations passes w))"

section \<open>Reading a trace\<close>

text \<open>
  The sends of a trace: for every write, in order, the address the connection was
  dialed to and the bytes written. \<open>since w w'\<close> is what the trace of \<open>w'\<close> holds behind
  the trace of \<open>w\<close>.
\<close>

fun sends :: "event list \<Rightarrow> (string \<times> bytes) list" where
  "sends [] = []"
| "sends (EvWrite c b r # es) = (RemoteAddr c, b) # sends es"
| "sends (e # es) = sends es"


definition since :: "world \<Rightarrow> world \<Rightarrow> event list" where
  "since w w' = drop (length (trace w)) (trace w')"



text \<open>
  The datagrams of a trace that went out: the sends whose write returned no error.
\<close>

fun delivered :: "event list \<Rightarrow> (string \<times> bytes) list" where
  "delivered [] = []"
| "delivered (EvWrite c b None # es) = (RemoteAddr c, b) # delivered es"
| "delivered (e # es) = delivered es"

text \<open>The connections that the writes of a trace went to, in order.\<close>

fun written_to :: "event list \<Rightarrow> conn list" where
  "written_to [] = []"
| "written_to (EvWrite c b r # es) = c # written_to es"
| "written_to (e # es) = written_to es"

text \<open>
  The discipline of the table of connections, read off a trace. The state is the table,
  the index of the destination whose write comes next, and the index of a destination
  that waits for its reconnect, if any. A write is accepted when no reconnect is
  waited for and it goes to the connection that the table holds at the index; the index
  moves on to the next destination, and a failed write makes its index wait. The dial
  that follows a failed write must ask for the address of the broken connection with
  the timeout of one second; when it succeeds the new connection takes the place of the
  broken one, and when it fails the index keeps waiting, so that no write is accepted
  any more. A dial that no failed write waits for is one of the first loop and adds its
  connection at the end of the table. Other events change nothing. \<open>follow\<close> runs a
  trace through these steps and gives the last state, or nothing when an event is not
  accepted.
\<close>

type_synonym table_state = "conn list \<times> nat \<times> nat option"

fun follow_event :: "table_state \<Rightarrow> event \<Rightarrow> table_state option" where
  "follow_event (cs, i, waiting) (EvWrite c b res) =
     (if waiting = None \<and> i < length cs \<and> c = cs ! i
      then Some (cs, (i + 1) mod length cs, (case res of None \<Rightarrow> None | Some err \<Rightarrow> Some i))
      else None)"
| "follow_event (cs, i, waiting) (EvDial a t res) =
     (if t \<noteq> Second then None
      else
        (case waiting of
           None \<Rightarrow>
             (case res of
                Inl err \<Rightarrow> Some (cs, i, None)
              | Inr c \<Rightarrow> if RemoteAddr c = a then Some (cs @ [c], i, None) else None)
         | Some j \<Rightarrow>
             if a \<noteq> RemoteAddr (cs ! j) then None
             else
               (case res of
                  Inl err \<Rightarrow> Some (cs, i, Some j)
                | Inr c \<Rightarrow> if RemoteAddr c = a then Some (cs[j := c], i, None) else None)))"
| "follow_event st e = Some st"

fun follow :: "table_state \<Rightarrow> event list \<Rightarrow> table_state option" where
  "follow st [] = Some st"
| "follow st (e # es) =
     (case follow_event st e of
        None \<Rightarrow> None
      | Some st1 \<Rightarrow> follow st1 es)"

text \<open>The packet that the router builds for a destination from a parsed packet.\<close>

definition packet_for :: "Destination \<Rightarrow> Packet \<Rightarrow> bytes" where
  "packet_for destination p =
     Sprintf_s_colon_s (ReplaceAll (Regex destination) (Key p) (Replace destination)) (Body p)"

text \<open>
  The configuration of the end-to-end scenario: two destinations that put \<open>prod.\<close> and
  \<open>dev.\<close> in front of keys that start with \<open>stats.\<close>, and a network without errors that
  delivers \<open>stats.counter:5|c\<close> with every read and knows the pattern \<open>^stats[.]\<close>.
\<close>

definition example_destinations :: "Destination list" where
  "example_destinations =
     [\<lparr>Address = ''127.0.0.1:9001'', Regex = anchored_literal ''stats.'',
       Replace = ''prod.stats.''\<rparr>,
      \<lparr>Address = ''127.0.0.1:9002'', Regex = anchored_literal ''stats.'',
       Replace = ''dev.stats.''\<rparr>]"

definition quiet_env :: env where
  "quiet_env =
     \<lparr>listen_err = None, setbuf_err = None, dial_err = (\<lambda>k. None), write_err = (\<lambda>k. None),
      incoming = (\<lambda>k. (''10.0.0.1:4000'', Inr ''stats.counter:5|c\<newline>'')),
      compile = (\<lambda>pattern. if pattern = ''^stats[.]'' then Some (anchored_literal ''stats.'')
                           else None),
      runtime_Version = ''go1''\<rparr>"

text \<open>
  Three destinations \<open>A\<close>, \<open>B\<close>, \<open>C\<close> with different rewrites, and two networks with a
  fault: in \<open>flaky_env\<close> the first write fails and every dial succeeds; in \<open>dead_env\<close>
  the first write fails and every dial fails.
\<close>

definition three_destinations :: "Destination list" where
  "three_destinations =
     [\<lparr>Address = ''A:1'', Regex = anchored_literal ''stats.'', Replace = ''a.''\<rparr>,
      \<lparr>Address = ''B:2'', Regex = anchored_literal ''stats.'', Replace = ''b.''\<rparr>,
      \<lparr>Address = ''C:3'', Regex = anchored_literal ''none.'', Replace = ''c.''\<rparr>]"

definition flaky_env :: env where
  "flaky_env = quiet_env\<lparr>write_err := (\<lambda>k. if k = 0 then Some ''connection refused'' else None)\<rparr>"

definition dead_env :: env where
  "dead_env = flaky_env\<lparr>dial_err := (\<lambda>k. Some ''no route to host'')\<rparr>"



definition scenario :: flags where
  "scenario =
     \<lparr>address = '':8125'',
      destinationAddresses =
        [''127.0.0.1:9001:^stats[.]:prod.stats.'', ''127.0.0.1:9002:^stats[.]:dev.stats.''],
      showVersion = False\<rparr>"


section \<open>Properties of the record parser\<close>

lemma IndexByte_None_iff: "IndexByte s c = None \<longleftrightarrow> c \<notin> set s"
  by (induction s) auto

lemma IndexByte_append: "c \<notin> set l \<Longrightarrow> IndexByte (l @ c # rest) c = Some (length l)"
  by (induction l) auto

lemma Split_no_sep: "sep \<notin> set s \<Longrightarrow> Split s sep = [s]"
proof -
  assume "sep \<notin> set s"
  then have "IndexByte s sep = None"
    by (simp add: IndexByte_None_iff)
  then show ?thesis
    by (simp add: Split.simps)
qed

lemma Split_append: "sep \<notin> set l \<Longrightarrow> Split (l @ sep # rest) sep = l # Split rest sep"
  by (subst Split.simps) (simp add: IndexByte_append)

lemma Split_Join:
  "ls \<noteq> [] \<Longrightarrow> \<forall>l\<in>set ls. sep \<notin> set l \<Longrightarrow> Split (Join ls sep) sep = ls"
proof (induction ls sep rule: Join.induct)
  case (1 sep)
  then show ?case by simp
next
  case (2 l sep)
  then show ?case by (simp add: Split_no_sep)
next
  case (3 l v va sep)
  then show ?case by (simp add: Split_append)
qed

lemma Split_pieces: "l \<in> set (Split s sep) \<Longrightarrow> sep \<notin> set l"
proof (induction s sep arbitrary: l rule: Split.induct)
  case (1 s sep)
  show ?case
  proof (cases "IndexByte s sep")
    case None
    with "1.prems" show ?thesis
      by (simp add: Split.simps [of s] IndexByte_None_iff)
  next
    case (Some m)
    have pre: "sep \<notin> set (take m s)"
      using Some
    proof (induction s arbitrary: m)
      case Nil
      then show ?case by simp
    next
      case (Cons a s)
      then show ?case by (cases m) (auto split: if_splits)
    qed
    from "1.prems" Some have "l = take m s \<or> l \<in> set (Split (drop (m + 1) s) sep)"
      by (simp add: Split.simps [of s])
    with pre "1.IH" [OF Some] show ?thesis
      by blast
  qed
qed

text \<open>
  \<open>packetRegexp_FindSubmatch\<close> computes the match of the pattern: it returns the whole line with the
  two groups exactly when the line is matched with these groups, and nil exactly when
  the pattern does not match the line.
\<close>

lemma packetRegexp_FindSubmatch_cases:
  "packetRegexp_FindSubmatch line = [] \<or> (\<exists>k b. packetRegexp_FindSubmatch line = [line, k, b])"
  by (auto simp: packetRegexp_FindSubmatch_def Let_def split: list.splits)

lemma packetRegexp_FindSubmatch_matches:
  "packetRegexp_FindSubmatch line = [line, k, b] \<longleftrightarrow> packetRegexp_matches line k b"
proof
  assume "packetRegexp_FindSubmatch line = [line, k, b]"
  then have k: "k = takeWhile (\<lambda>c. c \<noteq> colon) line" and kne: "k \<noteq> []"
    and r: "\<exists>c. dropWhile (\<lambda>c. c \<noteq> colon) line = c # b" and nb: "newline \<notin> set b"
    by (auto simp: packetRegexp_FindSubmatch_def Let_def split: list.splits if_splits)
  from r obtain c where c: "dropWhile (\<lambda>c. c \<noteq> colon) line = c # b" by blast
  then have "c = colon"
    using hd_dropWhile [of "\<lambda>c. c \<noteq> colon" line] by auto
  with c k have "line = k @ colon # b"
    using takeWhile_dropWhile_id [of "\<lambda>c. c \<noteq> colon" line] by simp
  moreover have "colon \<notin> set k"
    using k by (auto dest: set_takeWhileD)
  ultimately show "packetRegexp_matches line k b"
    using kne nb by (simp add: packetRegexp_matches_def)
next
  assume "packetRegexp_matches line k b"
  then have l: "line = k @ colon # b" and kne: "k \<noteq> []" and kc: "colon \<notin> set k"
    and nb: "newline \<notin> set b"
    by (simp_all add: packetRegexp_matches_def)
  from kc have "takeWhile (\<lambda>c. c \<noteq> colon) (k @ colon # b) = k"
    by (induction k) auto
  moreover from kc have "dropWhile (\<lambda>c. c \<noteq> colon) (k @ colon # b) = colon # b"
    by (induction k) auto
  ultimately show "packetRegexp_FindSubmatch line = [line, k, b]"
    using l kne nb by (simp add: packetRegexp_FindSubmatch_def)
qed

lemma packetRegexp_FindSubmatch_none:
  "packetRegexp_FindSubmatch line = [] \<longleftrightarrow> \<not> (\<exists>k b. packetRegexp_matches line k b)"
  using packetRegexp_FindSubmatch_cases [of line] packetRegexp_FindSubmatch_matches [of line] by auto

lemma parseMessage_loop_eq:
  "parseMessage_loop lines out = Inr (out @ concat (map packets_of_line lines))"
proof (induction lines arbitrary: out)
  case Nil
  then show ?case by simp
next
  case (Cons line lines)
  show ?case
    using packetRegexp_FindSubmatch_cases [of line]
    by (auto simp: Cons.IH packets_of_line_def index_def)
qed

lemma parseMessage_eq:
  "parseMessage data = Inr (concat (map packets_of_line (Split data newline)))"
  by (simp add: parseMessage_def parseMessage_loop_eq)

lemma parseMessage_line:
  "newline \<notin> set l \<Longrightarrow> parseMessage l = Inr (packets_of_line l)"
  by (simp add: parseMessage_eq Split_no_sep)

lemma packets_of_line_accepted:
  assumes "l \<noteq> []" and "hd l \<noteq> colon" and "colon \<in> set l" and "newline \<notin> set l"
  shows "\<exists>k b. packets_of_line l = [\<lparr>Key = k, Body = b\<rparr>] \<and> l = k @ colon # b \<and>
               k \<noteq> [] \<and> colon \<notin> set k"
proof -
  from \<open>colon \<in> set l\<close> obtain k b where l: "l = k @ colon # b" and k: "colon \<notin> set k"
    by (auto dest: split_list_first)
  from l \<open>hd l \<noteq> colon\<close> have "k \<noteq> []"
    by (cases k) auto
  moreover from l \<open>newline \<notin> set l\<close> have "newline \<notin> set b"
    by auto
  ultimately have "packetRegexp_matches l k b"
    using l k by (simp add: packetRegexp_matches_def)
  then have "packetRegexp_FindSubmatch l = [l, k, b]"
    by (simp add: packetRegexp_FindSubmatch_matches)
  with \<open>l \<noteq> []\<close> have "packets_of_line l = [\<lparr>Key = k, Body = b\<rparr>]"
    by (simp add: packets_of_line_def)
  with l k \<open>k \<noteq> []\<close> show ?thesis
    by blast
qed

lemma packets_of_line_rejected:
  assumes "l = [] \<or> hd l = colon \<or> colon \<notin> set l"
  shows "packets_of_line l = []"
proof (cases "l = []")
  case True
  then show ?thesis by (simp add: packets_of_line_def)
next
  case False
  have "\<not> (\<exists>k b. packetRegexp_matches l k b)"
  proof
    assume "\<exists>k b. packetRegexp_matches l k b"
    then obtain k b where "l = k @ colon # b" and "k \<noteq> []" and "colon \<notin> set k"
      by (auto simp: packetRegexp_matches_def)
    then have "hd l \<noteq> colon \<and> colon \<in> set l"
      by (cases k) auto
    with assms False show False
      by blast
  qed
  then have "packetRegexp_FindSubmatch l = []"
    by (simp add: packetRegexp_FindSubmatch_none)
  then show ?thesis
    by (simp add: packets_of_line_def)
qed

lemma packets_of_line_key:
  assumes r: "r \<in> set (packets_of_line l)"
  shows "Key r \<noteq> [] \<and> colon \<notin> set (Key r)"
proof -
  from r have "packetRegexp_FindSubmatch l \<noteq> []"
    by (auto simp: packets_of_line_def split: if_splits)
  then obtain k b where f: "packetRegexp_FindSubmatch l = [l, k, b]"
    using packetRegexp_FindSubmatch_cases [of l] by blast
  with r have "r = \<lparr>Key = k, Body = b\<rparr>"
    by (auto simp: packets_of_line_def split: if_splits)
  moreover from f have "packetRegexp_matches l k b"
    by (simp add: packetRegexp_FindSubmatch_matches)
  ultimately show ?thesis
    by (simp add: packetRegexp_matches_def)
qed

lemma packets_valid_lines:
  assumes "\<forall>l\<in>set ls. l \<noteq> [] \<and> colon \<in> set l \<and> hd l \<noteq> colon \<and> newline \<notin> set l"
  shows "list_all2 (\<lambda>l r. l = Key r @ colon # Body r \<and> colon \<notin> set (Key r)) ls
           (concat (map packets_of_line ls))"
  using assms
proof (induction ls)
  case Nil
  then show ?case by simp
next
  case (Cons l ls)
  then obtain k b where "packets_of_line l = [\<lparr>Key = k, Body = b\<rparr>]" and "l = k @ colon # b"
    and "colon \<notin> set k"
    using packets_of_line_accepted [of l] by auto
  with Cons show ?case
    by simp
qed

lemma rebuild_filter:
  assumes "\<forall>l\<in>set ls. newline \<notin> set l"
  shows "map (\<lambda>r. Key r @ colon # Body r) (concat (map packets_of_line ls)) =
         filter (\<lambda>l. l \<noteq> [] \<and> hd l \<noteq> colon \<and> colon \<in> set l) ls"
  using assms
proof (induction ls)
  case Nil
  then show ?case by simp
next
  case (Cons l ls)
  show ?case
  proof (cases "l \<noteq> [] \<and> hd l \<noteq> colon \<and> colon \<in> set l")
    case True
    with Cons.prems obtain k b where "packets_of_line l = [\<lparr>Key = k, Body = b\<rparr>]"
      and "l = k @ colon # b"
      using packets_of_line_accepted [of l] by auto
    with True Cons show ?thesis
      by simp
  next
    case False
    then have "packets_of_line l = []"
      by (intro packets_of_line_rejected) blast
    with False Cons show ?thesis
      by auto
  qed
qed

text \<open>
  Claim C1. A buffer made of \<open>n\<close> valid lines separated by newline bytes (each line is
  not empty, holds a colon, does not start with a colon, and holds no newline itself)
  is parsed without error into exactly \<open>n\<close> packets, in the order of the lines; each
  line is the key of its packet, one colon, and the body of its packet, and the key
  holds no colon, so the colon is the first one of the line. The body may be empty and
  may hold further colons.
\<close>

theorem parseMessage_valid_lines:
  assumes "\<forall>l\<in>set ls. l \<noteq> [] \<and> colon \<in> set l \<and> hd l \<noteq> colon \<and> newline \<notin> set l"
  shows "\<exists>rs. parseMessage (Join ls newline) = Inr rs \<and> length rs = length ls \<and>
              list_all2 (\<lambda>l r. l = Key r @ colon # Body r \<and> colon \<notin> set (Key r)) ls rs"
proof (cases "ls = []")
  case True
  then show ?thesis
    by (simp add: parseMessage_eq Split_no_sep packets_of_line_def)
next
  case False
  with assms have "Split (Join ls newline) newline = ls"
    by (simp add: Split_Join)
  then have "parseMessage (Join ls newline) = Inr (concat (map packets_of_line ls))"
    by (simp add: parseMessage_eq)
  with packets_valid_lines [OF assms] show ?thesis
    by (auto dest: list_all2_lengthD)
qed

theorem parseMessage_valid_lines_witness:
  "\<exists>r1 r2 r3. parseMessage (Join [''stats.counter:5|c'', ''a.b:1:2'', ''k:''] newline) =
       Inr [r1, r2, r3] \<and>
     ''stats.counter:5|c'' = Key r1 @ colon # Body r1 \<and> colon \<notin> set (Key r1) \<and>
     ''a.b:1:2'' = Key r2 @ colon # Body r2 \<and> colon \<notin> set (Key r2) \<and>
     ''k:'' = Key r3 @ colon # Body r3 \<and> colon \<notin> set (Key r3)"
proof -
  let ?ls = "[''stats.counter:5|c'', ''a.b:1:2'', ''k:'']"
  have "\<forall>l\<in>set ?ls. l \<noteq> [] \<and> colon \<in> set l \<and> hd l \<noteq> colon \<and> newline \<notin> set l"
    by simp
  from parseMessage_valid_lines [OF this] obtain rs where
    rs: "parseMessage (Join ?ls newline) = Inr rs"
    and all: "list_all2 (\<lambda>l r. l = Key r @ colon # Body r \<and> colon \<notin> set (Key r)) ?ls rs"
    by blast
  from all obtain r1 r2 r3 where "rs = [r1, r2, r3]"
    and "''stats.counter:5|c'' = Key r1 @ colon # Body r1" "colon \<notin> set (Key r1)"
    and "''a.b:1:2'' = Key r2 @ colon # Body r2" "colon \<notin> set (Key r2)"
    and "''k:'' = Key r3 @ colon # Body r3" "colon \<notin> set (Key r3)"
    by (auto simp: list_all2_Cons1)
  with rs show ?thesis
    by blast
qed

text \<open>
  Claim C2. For every buffer: parsing each line of the buffer alone never fails, and
  the parse of the whole buffer is the packets of its lines alone, one line after the
  other; a line that is empty or holds no colon gives no packet. So a line that is
  dropped changes nothing for the other lines, and the parser never fails.
\<close>

theorem parseMessage_isolation:
  "\<exists>rss. map parseMessage (Split data newline) = map Inr rss \<and>
         parseMessage data = Inr (concat rss) \<and>
         (\<forall>i<length rss. Split data newline ! i = [] \<or> colon \<notin> set (Split data newline ! i)
            \<longrightarrow> rss ! i = [])"
proof -
  let ?lines = "Split data newline"
  have "map parseMessage ?lines = map Inr (map packets_of_line ?lines)"
    by (simp add: parseMessage_line Split_pieces)
  moreover have "parseMessage data = Inr (concat (map packets_of_line ?lines))"
    by (rule parseMessage_eq)
  moreover have "\<forall>i<length (map packets_of_line ?lines).
      ?lines ! i = [] \<or> colon \<notin> set (?lines ! i) \<longrightarrow> map packets_of_line ?lines ! i = []"
    by (auto simp: packets_of_line_rejected)
  ultimately show ?thesis
    by blast
qed

theorem parseMessage_isolation_witness:
  "\<exists>rss. map parseMessage (Split ''a:1\<newline>\<newline>junk\<newline>b:2:3'' newline) = map Inr rss \<and>
     parseMessage ''a:1\<newline>\<newline>junk\<newline>b:2:3'' = Inr (concat rss) \<and>
     Split ''a:1\<newline>\<newline>junk\<newline>b:2:3'' newline ! 1 = [] \<and>
     colon \<notin> set (Split ''a:1\<newline>\<newline>junk\<newline>b:2:3'' newline ! 2) \<and>
     rss = [[\<lparr>Key = ''a'', Body = ''1''\<rparr>], [], [], [\<lparr>Key = ''b'', Body = ''2:3''\<rparr>]]"
proof -
  let ?data = "''a:1\<newline>\<newline>junk\<newline>b:2:3''"
  have lines: "Split ?data newline = [''a:1'', [], ''junk'', ''b:2:3'']"
    by code_simp
  have alone: "parseMessage ''a:1'' = Inr [\<lparr>Key = ''a'', Body = ''1''\<rparr>]"
    "parseMessage ''b:2:3'' = Inr [\<lparr>Key = ''b'', Body = ''2:3''\<rparr>]"
    by code_simp+
  from parseMessage_isolation [of ?data] obtain rss where
    each: "map parseMessage (Split ?data newline) = map Inr rss"
    and whole: "parseMessage ?data = Inr (concat rss)"
    and bad: "\<forall>i<length rss. Split ?data newline ! i = [] \<or> colon \<notin> set (Split ?data newline ! i)
                \<longrightarrow> rss ! i = []"
    by blast
  from each lines obtain r0 r1 r2 r3 where rss: "rss = [r0, r1, r2, r3]"
    and "parseMessage ''a:1'' = Inr r0" and "parseMessage ''b:2:3'' = Inr r3"
    by (auto simp: Cons_eq_map_conv)
  with alone have ends: "r0 = [\<lparr>Key = ''a'', Body = ''1''\<rparr>]" "r3 = [\<lparr>Key = ''b'', Body = ''2:3''\<rparr>]"
    by simp_all
  have "rss ! 1 = []"
    using bad [rule_format, of 1] rss lines by simp
  moreover have "rss ! 2 = []"
    using bad [rule_format, of 2] rss lines by simp
  ultimately have "rss ! 1 = []" and "rss ! 2 = []"
    by blast+
  with rss have "r1 = []" and "r2 = []"
    by simp_all
  with rss ends each whole lines show ?thesis
    by simp
qed

text \<open>
  Claim C10. For every buffer the parser returns packets whose keys are not empty and
  hold no colon, and putting each packet together again (key, colon, body) gives, in
  order, exactly the lines of the buffer that are not empty, do not start with a colon
  and hold a colon: a line that starts with a colon gives no packet although it holds
  one, and every packet gives back its line byte for byte.
\<close>

theorem parseMessage_records:
  "\<exists>rs. parseMessage data = Inr rs \<and>
        (\<forall>r\<in>set rs. Key r \<noteq> [] \<and> colon \<notin> set (Key r)) \<and>
        map (\<lambda>r. Key r @ colon # Body r) rs =
          filter (\<lambda>l. l \<noteq> [] \<and> hd l \<noteq> colon \<and> colon \<in> set l) (Split data newline)"
proof -
  have "\<forall>r\<in>set (concat (map packets_of_line (Split data newline))).
          Key r \<noteq> [] \<and> colon \<notin> set (Key r)"
    by (auto dest: packets_of_line_key)
  moreover have "\<forall>l\<in>set (Split data newline). newline \<notin> set l"
    by (auto dest: Split_pieces)
  ultimately show ?thesis
    by (simp add: parseMessage_eq rebuild_filter)
qed

theorem parseMessage_records_witness:
  "\<exists>r1 r2. parseMessage ''a:1\<newline>:x\<newline>b:2:3\<newline>'' = Inr [r1, r2] \<and>
     Key r1 \<noteq> [] \<and> colon \<notin> set (Key r1) \<and> Key r2 \<noteq> [] \<and> colon \<notin> set (Key r2) \<and>
     Key r1 @ colon # Body r1 = ''a:1'' \<and> Key r2 @ colon # Body r2 = ''b:2:3''"
proof -
  let ?data = "''a:1\<newline>:x\<newline>b:2:3\<newline>''"
  have lines: "Split ?data newline = [''a:1'', '':x'', ''b:2:3'', []]"
    by code_simp
  from parseMessage_records [of ?data] obtain rs where
    rs: "parseMessage ?data = Inr rs"
    and keys: "\<forall>r\<in>set rs. Key r \<noteq> [] \<and> colon \<notin> set (Key r)"
    and rebuild: "map (\<lambda>r. Key r @ colon # Body r) rs =
          filter (\<lambda>l. l \<noteq> [] \<and> hd l \<noteq> colon \<and> colon \<in> set l) (Split ?data newline)"
    by blast
  from rebuild lines have "map (\<lambda>r. Key r @ colon # Body r) rs = [''a:1'', ''b:2:3'']"
    by simp
  then obtain r1 r2 where "rs = [r1, r2]" and "Key r1 @ colon # Body r1 = ''a:1''"
    and "Key r2 @ colon # Body r2 = ''b:2:3''"
    by (auto simp: map_eq_Cons_conv)
  with rs keys show ?thesis
    by auto
qed

section \<open>Properties of the fan-out router\<close>

lemma sends_append: "sends (xs @ ys) = sends xs @ sends ys"
  by (induction xs rule: sends.induct) auto

lemma since_append: "trace w' = trace w @ new \<Longrightarrow> since w w' = new"
  by (simp add: since_def)

text \<open>
  What one pass of the innermost loop does, whatever the network answers: it writes the
  packet once, to the connection of the destination, and when it goes on, the
  connections are still dialed to the same addresses.
\<close>

lemma send_one_effect:
  assumes i: "i < length cs" and addr: "RemoteAddr (cs ! i) = Address d"
    and run: "send_one E p i d cs w = (r, w')"
  shows "\<exists>new. trace w' = trace w @ new \<and> sends new = [(Address d, packet_for d p)] \<and>
           (\<forall>cs'. r = Inr cs' \<longrightarrow> map RemoteAddr cs' = map RemoteAddr cs)"
proof (cases "write_err E (writes w)")
  case None
  with i run have "r = Inr cs"
    and "trace w' = trace w @ [EvWrite (cs ! i) (packet_for d p) None]"
    by (auto simp: send_one_def index_def conn_Write_def emit_def packet_for_def Let_def)
  with addr show ?thesis
    by simp
next
  case (Some err)
  show ?thesis
  proof (cases "dial_err E (dials w)")
    case None
    with Some i run have "r = Inr (cs[i := Conn (dials w) (Address d)])"
      and "trace w' = trace w @
             [EvWrite (cs ! i) (packet_for d p) (Some err),
              EvLog ''ERROR: writing to UDP socket - %s'' [ArgErr err],
              EvClose (cs ! i),
              EvDial (Address d) Second (Inr (Conn (dials w) (Address d)))]"
      by (auto simp: send_one_def index_def conn_Write_def emit_def packet_for_def Let_def
            log_Printf_def conn_Close_def net_DialTimeout_def)
    moreover from i addr have "map RemoteAddr (cs[i := Conn (dials w) (Address d)]) = map RemoteAddr cs"
      by (simp add: map_update) (metis list_update_id nth_map length_map)
    ultimately show ?thesis
      using addr by simp
  next
    case (Some err2)
    with \<open>write_err E (writes w) = Some err\<close> i run have "r = Inl (Exit 1)"
      and "trace w' = trace w @
             [EvWrite (cs ! i) (packet_for d p) (Some err),
              EvLog ''ERROR: writing to UDP socket - %s'' [ArgErr err],
              EvClose (cs ! i),
              EvDial (Address d) Second (Inl err2),
              EvLog ''ERROR: UDP connection failed - %s'' [ArgErr err2]]"
      by (auto simp: send_one_def index_def conn_Write_def emit_def packet_for_def Let_def
            log_Printf_def conn_Close_def net_DialTimeout_def log_Fatalf_def)
    with addr show ?thesis
      by simp
  qed
qed

lemma range_destinations_effect:
  assumes "drop i (map RemoteAddr cs) = map Address ds"
    and "range_destinations E p i ds cs w = (r, w')"
  shows "\<exists>new. trace w' = trace w @ new \<and>
           (\<exists>rest. sends new @ rest = map (\<lambda>d. (Address d, packet_for d p)) ds) \<and>
           (\<forall>cs'. r = Inr cs' \<longrightarrow>
              sends new = map (\<lambda>d. (Address d, packet_for d p)) ds \<and>
              map RemoteAddr cs' = map RemoteAddr cs)"
  using assms
proof (induction ds arbitrary: i cs w)
  case Nil
  then show ?case by auto
next
  case (Cons d ds)
  from Cons.prems(1) have i: "i < length cs"
    by (metis drop_all length_map list.distinct(1) map_is_Nil_conv not_le_imp_less drop_eq_Nil2)
  from Cons.prems(1) i have addr: "RemoteAddr (cs ! i) = Address d"
    and tail: "drop (i + 1) (map RemoteAddr cs) = map Address ds"
    by (simp_all add: Cons_nth_drop_Suc [symmetric])
  obtain r1 w1 where one: "send_one E p i d cs w = (r1, w1)"
    by (cases "send_one E p i d cs w")
  from send_one_effect [OF i addr one] obtain new1 where
    t1: "trace w1 = trace w @ new1" and s1: "sends new1 = [(Address d, packet_for d p)]"
    and c1: "\<forall>cs'. r1 = Inr cs' \<longrightarrow> map RemoteAddr cs' = map RemoteAddr cs"
    by blast
  show ?case
  proof (cases r1)
    case (Inl st)
    with one Cons.prems(2) have "r = Inl st" and "w' = w1"
      by simp_all
    with t1 s1 show ?thesis
      by auto
  next
    case (Inr cs1)
    with one Cons.prems(2) have rest: "range_destinations E p (i + 1) ds cs1 w1 = (r, w')"
      by simp
    from c1 Inr tail have "drop (i + 1) (map RemoteAddr cs1) = map Address ds"
      by simp
    from Cons.IH [OF this rest] obtain new2 where
      t2: "trace w' = trace w1 @ new2"
      and p2: "\<exists>rest. sends new2 @ rest = map (\<lambda>d. (Address d, packet_for d p)) ds"
      and c2: "\<forall>cs'. r = Inr cs' \<longrightarrow>
              sends new2 = map (\<lambda>d. (Address d, packet_for d p)) ds \<and>
              map RemoteAddr cs' = map RemoteAddr cs1"
      by blast
    from t1 t2 have "trace w' = trace w @ (new1 @ new2)"
      by simp
    moreover from s1 p2 have "\<exists>rest. sends (new1 @ new2) @ rest =
        map (\<lambda>d. (Address d, packet_for d p)) (d # ds)"
      by (auto simp: sends_append)
    moreover from s1 c2 c1 Inr have "\<forall>cs'. r = Inr cs' \<longrightarrow>
        sends (new1 @ new2) = map (\<lambda>d. (Address d, packet_for d p)) (d # ds) \<and>
        map RemoteAddr cs' = map RemoteAddr cs"
      by (auto simp: sends_append)
    ultimately show ?thesis
      by blast
  qed
qed

text \<open>The sends that a list of packets asks for: packet after packet, destination after destination.\<close>

lemma range_packets_effect:
  assumes "map RemoteAddr cs = map Address destinations"
    and "range_packets E ps destinations cs w = (r, w')"
  shows "\<exists>new. trace w' = trace w @ new \<and>
           (\<exists>rest. sends new @ rest =
              concat (map (\<lambda>p. map (\<lambda>d. (Address d, packet_for d p)) destinations) ps)) \<and>
           (\<forall>cs'. r = Inr cs' \<longrightarrow>
              sends new = concat (map (\<lambda>p. map (\<lambda>d. (Address d, packet_for d p)) destinations) ps) \<and>
              map RemoteAddr cs' = map Address destinations)"
  using assms
proof (induction ps arbitrary: cs w)
  case Nil
  then show ?case by auto
next
  case (Cons p ps)
  obtain r1 w1 where one: "range_destinations E p 0 destinations cs w = (r1, w1)"
    by (cases "range_destinations E p 0 destinations cs w")
  from Cons.prems(1) have "drop 0 (map RemoteAddr cs) = map Address destinations"
    by simp
  from range_destinations_effect [OF this one] obtain new1 where
    t1: "trace w1 = trace w @ new1"
    and p1: "\<exists>rest. sends new1 @ rest = map (\<lambda>d. (Address d, packet_for d p)) destinations"
    and c1: "\<forall>cs'. r1 = Inr cs' \<longrightarrow>
              sends new1 = map (\<lambda>d. (Address d, packet_for d p)) destinations \<and>
              map RemoteAddr cs' = map RemoteAddr cs"
    by blast
  show ?case
  proof (cases r1)
    case (Inl st)
    with one Cons.prems(2) have "r = Inl st" and "w' = w1"
      by simp_all
    moreover from p1 obtain rest where
      "sends new1 @ rest = map (\<lambda>d. (Address d, packet_for d p)) destinations"
      by blast
    then have "sends new1 @ (rest @ concat (map (\<lambda>p. map (\<lambda>d. (Address d, packet_for d p)) destinations) ps)) =
        concat (map (\<lambda>p. map (\<lambda>d. (Address d, packet_for d p)) destinations) (p # ps))"
      by simp
    ultimately show ?thesis
      using t1 by blast
  next
    case (Inr cs1)
    with one Cons.prems(2) have rest: "range_packets E ps destinations cs1 w1 = (r, w')"
      by simp
    from c1 Inr Cons.prems(1) have s1: "sends new1 = map (\<lambda>d. (Address d, packet_for d p)) destinations"
      and "map RemoteAddr cs1 = map Address destinations"
      by simp_all
    from Cons.IH [OF this(2) rest] obtain new2 where
      t2: "trace w' = trace w1 @ new2"
      and p2: "\<exists>rest. sends new2 @ rest =
              concat (map (\<lambda>p. map (\<lambda>d. (Address d, packet_for d p)) destinations) ps)"
      and c2: "\<forall>cs'. r = Inr cs' \<longrightarrow>
              sends new2 = concat (map (\<lambda>p. map (\<lambda>d. (Address d, packet_for d p)) destinations) ps) \<and>
              map RemoteAddr cs' = map Address destinations"
      by blast
    from t1 t2 have "trace w' = trace w @ (new1 @ new2)"
      by simp
    moreover from s1 p2 have "\<exists>rest. sends (new1 @ new2) @ rest =
        concat (map (\<lambda>p. map (\<lambda>d. (Address d, packet_for d p)) destinations) (p # ps))"
      by (auto simp: sends_append)
    moreover from s1 c2 have "\<forall>cs'. r = Inr cs' \<longrightarrow>
        sends (new1 @ new2) =
          concat (map (\<lambda>p. map (\<lambda>d. (Address d, packet_for d p)) destinations) (p # ps)) \<and>
        map RemoteAddr cs' = map Address destinations"
      by (auto simp: sends_append)
    ultimately show ?thesis
      by blast
  qed
qed

lemma dial_all_effect:
  assumes "dial_all E ds cs w = (Inr cs', w')"
  shows "map RemoteAddr cs' = map RemoteAddr cs @ map Address ds"
  using assms
proof (induction ds arbitrary: cs w)
  case Nil
  then show ?case by simp
next
  case (Cons d ds)
  show ?case
  proof (cases "dial_err E (dials w)")
    case None
    with Cons.prems have "dial_all E ds (cs @ [Conn (dials w) (Address d)])
        (emit (EvDial (Address d) Second (Inr (Conn (dials w) (Address d)))) (w\<lparr>dials := dials w + 1\<rparr>)) =
        (Inr cs', w')"
      by (simp add: net_DialTimeout_def Let_def)
    from Cons.IH [OF this] show ?thesis
      by simp
  next
    case (Some err)
    with Cons.prems show ?thesis
      by (simp add: net_DialTimeout_def log_Fatalf_def Let_def)
  qed
qed

lemma packets_of_line_matches:
  assumes r: "r \<in> set (packets_of_line l)"
  shows "packetRegexp_matches l (Key r) (Body r)"
proof -
  from r have "packetRegexp_FindSubmatch l \<noteq> []"
    by (auto simp: packets_of_line_def split: if_splits)
  then obtain k b where f: "packetRegexp_FindSubmatch l = [l, k, b]"
    using packetRegexp_FindSubmatch_cases [of l] by blast
  with r have "r = \<lparr>Key = k, Body = b\<rparr>"
    by (auto simp: packets_of_line_def split: if_splits)
  moreover from f have "packetRegexp_matches l k b"
    by (simp add: packetRegexp_FindSubmatch_matches)
  ultimately show ?thesis
    by simp
qed

lemma parsed_body_no_newline:
  assumes "parseMessage data = Inr ps" and "p \<in> set ps"
  shows "newline \<notin> set (Body p)"
proof -
  from assms obtain l where "p \<in> set (packets_of_line l)"
    by (auto simp: parseMessage_eq)
  then have "packetRegexp_matches l (Key p) (Body p)"
    by (rule packets_of_line_matches)
  then show ?thesis
    by (simp add: packetRegexp_matches_def)
qed

lemma packet_no_trailing_newline:
  assumes "newline \<notin> set body"
  shows "k @ colon # body \<noteq> [] \<and> last (k @ colon # body) \<noteq> newline"
proof (cases "body = []")
  case True
  then show ?thesis by simp
next
  case False
  then have "last (k @ colon # body) = last body"
    by simp
  moreover from False have "last body \<in> set body"
    by simp
  ultimately show ?thesis
    using assms by auto
qed

lemma concat_map_all:
  assumes "\<And>x y. x \<in> set xs \<Longrightarrow> P (f x y)"
  shows "\<forall>b\<in>set (concat (map (\<lambda>x. map (\<lambda>y. f x y) ys) xs)). P b"
  using assms by auto

text \<open>When a pass of the innermost loop ends the process, a dial has just failed.\<close>

lemma send_one_stop:
  assumes i: "i < length cs" and run: "send_one E p i d cs w = (Inl st, w')"
  shows "st = Exit 1 \<and> (\<exists>err. EvDial (Address d) Second (Inl err) \<in> set (since w w'))"
proof (cases "write_err E (writes w)")
  case None
  with i run show ?thesis
    by (simp add: send_one_def index_def conn_Write_def Let_def)
next
  case (Some err)
  show ?thesis
  proof (cases "dial_err E (dials w)")
    case None
    with Some i run show ?thesis
      by (simp add: send_one_def index_def conn_Write_def emit_def Let_def log_Printf_def
            conn_Close_def net_DialTimeout_def)
  next
    case (Some err2)
    with \<open>write_err E (writes w) = Some err\<close> i run show ?thesis
      by (auto simp: send_one_def index_def conn_Write_def emit_def Let_def log_Printf_def
            conn_Close_def net_DialTimeout_def log_Fatalf_def since_def)
  qed
qed

lemma range_destinations_stop:
  assumes "drop i (map RemoteAddr cs) = map Address ds"
    and "range_destinations E p i ds cs w = (Inl st, w')"
  shows "st = Exit 1 \<and> (\<exists>a err. EvDial a Second (Inl err) \<in> set (since w w'))"
  using assms
proof (induction ds arbitrary: i cs w)
  case Nil
  then show ?case by simp
next
  case (Cons d ds)
  from Cons.prems(1) have i: "i < length cs"
    by (metis drop_all length_map list.distinct(1) map_is_Nil_conv not_le_imp_less drop_eq_Nil2)
  from Cons.prems(1) i have addr: "RemoteAddr (cs ! i) = Address d"
    and tail: "drop (i + 1) (map RemoteAddr cs) = map Address ds"
    by (simp_all add: Cons_nth_drop_Suc [symmetric])
  obtain r1 w1 where one: "send_one E p i d cs w = (r1, w1)"
    by (cases "send_one E p i d cs w")
  from send_one_effect [OF i addr one] obtain new1 where
    t1: "trace w1 = trace w @ new1"
    and c1: "\<forall>cs'. r1 = Inr cs' \<longrightarrow> map RemoteAddr cs' = map RemoteAddr cs"
    by blast
  show ?case
  proof (cases r1)
    case (Inl st1)
    with one Cons.prems(2) have "send_one E p i d cs w = (Inl st, w')"
      by simp
    from send_one_stop [OF i this] show ?thesis
      by blast
  next
    case (Inr cs1)
    with one Cons.prems(2) have rest: "range_destinations E p (i + 1) ds cs1 w1 = (Inl st, w')"
      by simp
    from c1 Inr tail have "drop (i + 1) (map RemoteAddr cs1) = map Address ds"
      by simp
    from Cons.IH [OF this rest] obtain a err where st: "st = Exit 1"
      and "EvDial a Second (Inl err) \<in> set (since w1 w')"
      by blast
    moreover from t1 have "since w1 w' = drop (length new1) (since w w')"
      by (simp add: since_def add.commute)
    ultimately have "EvDial a Second (Inl err) \<in> set (since w w')"
      by (auto dest: in_set_dropD)
    with st show ?thesis
      by blast
  qed
qed

text \<open>
  Claim C3. Routing one datagram, with the connections dialed to the destinations in
  their order: the sends that happen are, in this order, those of the first packet to
  every destination in the order of the configuration, then those of the second
  packet, and so on. While the process lives nothing is left out or reordered: the
  sends made are always a front part of that list, and the whole list when the routing
  returns. With destinations \<open>[A, B, C]\<close> the sends of one packet go to \<open>A\<close>, then \<open>B\<close>,
  then \<open>C\<close>.
\<close>

theorem route_order:
  assumes "map RemoteAddr cs = map Address destinations"
    and "route E data destinations cs w = (r, w')"
  shows "\<exists>ps. parseMessage data = Inr ps \<and> trace w' = trace w @ since w w' \<and>
           (\<exists>rest. sends (since w w') @ rest =
              concat (map (\<lambda>p. map (\<lambda>d. (Address d, packet_for d p)) destinations) ps)) \<and>
           (\<forall>cs'. r = Inr cs' \<longrightarrow>
              sends (since w w') =
                concat (map (\<lambda>p. map (\<lambda>d. (Address d, packet_for d p)) destinations) ps) \<and>
              map RemoteAddr cs' = map Address destinations)"
proof -
  obtain ps where ps: "parseMessage data = Inr ps"
    by (simp add: parseMessage_eq)
  with assms(2) have "range_packets E ps destinations cs w = (r, w')"
    by (simp add: route_def)
  from range_packets_effect [OF assms(1) this] obtain new where
    "trace w' = trace w @ new"
    and "\<exists>rest. sends new @ rest =
              concat (map (\<lambda>p. map (\<lambda>d. (Address d, packet_for d p)) destinations) ps)"
    and "\<forall>cs'. r = Inr cs' \<longrightarrow>
              sends new = concat (map (\<lambda>p. map (\<lambda>d. (Address d, packet_for d p)) destinations) ps) \<and>
              map RemoteAddr cs' = map Address destinations"
    by blast
  moreover from this(1) have "since w w' = new"
    by (rule since_append)
  ultimately show ?thesis
    using ps by simp
qed

theorem route_order_witness:
  "map RemoteAddr [Conn 0 ''A:1'', Conn 1 ''B:2'', Conn 2 ''C:3''] = map Address three_destinations \<and>
   sends (since world0 (snd (route quiet_env ''stats.x:1\<newline>y:2'' three_destinations
       [Conn 0 ''A:1'', Conn 1 ''B:2'', Conn 2 ''C:3''] world0))) =
     [(''A:1'', ''a.x:1''), (''B:2'', ''b.x:1''), (''C:3'', ''stats.x:1''),
      (''A:1'', ''y:2''), (''B:2'', ''y:2''), (''C:3'', ''y:2'')]"
proof -
  let ?cs = "[Conn 0 ''A:1'', Conn 1 ''B:2'', Conn 2 ''C:3'']"
  let ?run = "route quiet_env ''stats.x:1\<newline>y:2'' three_destinations ?cs world0"
  have parsed: "parseMessage ''stats.x:1\<newline>y:2'' =
      Inr [\<lparr>Key = ''stats.x'', Body = ''1''\<rparr>, \<lparr>Key = ''y'', Body = ''2''\<rparr>]"
    by code_simp
  have keys: "ReplaceAll (anchored_literal ''stats.'') ''stats.x'' ''a.'' = ''a.x''"
    "ReplaceAll (anchored_literal ''stats.'') ''stats.x'' ''b.'' = ''b.x''"
    "ReplaceAll (anchored_literal ''none.'') ''stats.x'' ''c.'' = ''stats.x''"
    "ReplaceAll (anchored_literal ''stats.'') ''y'' ''a.'' = ''y''"
    "ReplaceAll (anchored_literal ''stats.'') ''y'' ''b.'' = ''y''"
    "ReplaceAll (anchored_literal ''none.'') ''y'' ''c.'' = ''y''"
    by code_simp+
  have aligned: "map RemoteAddr ?cs = map Address three_destinations"
    by (simp add: three_destinations_def)
  have goes_on: "fst ?run = Inr ?cs"
    by (simp add: route_def parsed send_one_def index_def conn_Write_def emit_def quiet_env_def
          three_destinations_def world0_def Let_def)
  have run: "?run = (fst ?run, snd ?run)"
    by simp
  from route_order [OF aligned run] parsed goes_on
  have "sends (since world0 (snd ?run)) =
      concat (map (\<lambda>p. map (\<lambda>d. (Address d, packet_for d p)) three_destinations)
        [\<lparr>Key = ''stats.x'', Body = ''1''\<rparr>, \<lparr>Key = ''y'', Body = ''2''\<rparr>])"
    by auto
  then have "sends (since world0 (snd ?run)) =
     [(''A:1'', ''a.x:1''), (''B:2'', ''b.x:1''), (''C:3'', ''stats.x:1''),
      (''A:1'', ''y:2''), (''B:2'', ''y:2''), (''C:3'', ''y:2'')]"
    by (simp add: three_destinations_def packet_for_def keys Sprintf_s_colon_s_def)
  with aligned show ?thesis
    by blast
qed

text \<open>In a network where no write fails the routing returns and every send goes out.\<close>

lemma delivered_append: "delivered (xs @ ys) = delivered xs @ delivered ys"
  by (induction xs rule: delivered.induct) auto

lemma range_destinations_delivered:
  assumes "\<forall>k. write_err E k = None"
    and "drop i (map RemoteAddr cs) = map Address ds"
    and "range_destinations E p i ds cs w = (r, w')"
  shows "r = Inr cs \<and>
         (\<exists>new. trace w' = trace w @ new \<and>
            delivered new = map (\<lambda>d. (Address d, packet_for d p)) ds)"
  using assms(2,3)
proof (induction ds arbitrary: i w)
  case Nil
  then show ?case by simp
next
  case (Cons d ds)
  from Cons.prems(1) have i: "i < length cs"
    by (metis drop_all length_map list.distinct(1) map_is_Nil_conv not_le_imp_less drop_eq_Nil2)
  from Cons.prems(1) i have addr: "RemoteAddr (cs ! i) = Address d"
    and tail: "drop (i + 1) (map RemoteAddr cs) = map Address ds"
    by (simp_all add: Cons_nth_drop_Suc [symmetric])
  let ?w1 = "emit (EvWrite (cs ! i) (packet_for d p) None) (w\<lparr>writes := writes w + 1\<rparr>)"
  from assms(1) i have one: "send_one E p i d cs w = (Inr cs, ?w1)"
    by (simp add: send_one_def index_def conn_Write_def packet_for_def Let_def)
  with Cons.prems(2) have "range_destinations E p (i + 1) ds cs ?w1 = (r, w')"
    by simp
  from Cons.IH [OF tail this] obtain new2 where r: "r = Inr cs"
    and t2: "trace w' = trace ?w1 @ new2"
    and d2: "delivered new2 = map (\<lambda>d. (Address d, packet_for d p)) ds"
    by blast
  from t2 have "trace w' = trace w @ (EvWrite (cs ! i) (packet_for d p) None # new2)"
    by (simp add: emit_def)
  moreover from d2 addr
  have "delivered (EvWrite (cs ! i) (packet_for d p) None # new2) =
      map (\<lambda>d. (Address d, packet_for d p)) (d # ds)"
    by simp
  ultimately show ?case
    using r by blast
qed

lemma range_packets_delivered:
  assumes "\<forall>k. write_err E k = None"
    and "map RemoteAddr cs = map Address ds"
    and "range_packets E ps ds cs w = (r, w')"
  shows "r = Inr cs \<and>
         (\<exists>new. trace w' = trace w @ new \<and>
            delivered new =
              concat (map (\<lambda>p. map (\<lambda>d. (Address d, packet_for d p)) ds) ps))"
  using assms(3)
proof (induction ps arbitrary: w)
  case Nil
  then show ?case by simp
next
  case (Cons p ps)
  obtain r1 w1 where one: "range_destinations E p 0 ds cs w = (r1, w1)"
    by (cases "range_destinations E p 0 ds cs w")
  from assms(2) have "drop 0 (map RemoteAddr cs) = map Address ds"
    by simp
  from range_destinations_delivered [OF assms(1) this one] obtain new1 where
    r1: "r1 = Inr cs" and t1: "trace w1 = trace w @ new1"
    and d1: "delivered new1 = map (\<lambda>d. (Address d, packet_for d p)) ds"
    by blast
  from one r1 Cons.prems have "range_packets E ps ds cs w1 = (r, w')"
    by simp
  from Cons.IH [OF this] obtain new2 where r: "r = Inr cs"
    and t2: "trace w' = trace w1 @ new2"
    and d2: "delivered new2 =
        concat (map (\<lambda>p. map (\<lambda>d. (Address d, packet_for d p)) ds) ps)"
    by blast
  from t1 t2 have "trace w' = trace w @ (new1 @ new2)"
    by simp
  moreover from d1 d2 have "delivered (new1 @ new2) =
      concat (map (\<lambda>p. map (\<lambda>d. (Address d, packet_for d p)) ds) (p # ps))"
    by (simp add: delivered_append)
  ultimately show ?case
    using r by blast
qed

text \<open>
  Claim C4, amended. Routing one datagram makes, for every parsed packet and every
  destination, at most one write, and the bytes written are the rewritten key, one
  colon and the body; no packet written is empty or ends with a newline. The writes
  made are a front part of the list of all pairs of packet and destination, and the
  whole list when the routing returns, that is unless a failed reconnect has ended the
  process. A write that fails is not repeated. In a network where no write fails the
  routing returns and exactly one datagram goes out for every packet and every
  destination. The rewritten key is \<open>ReplaceAll\<close> of the pattern of the destination on
  the key with the replacement of the destination.
\<close>

theorem route_packets:
  assumes "map RemoteAddr cs = map Address destinations"
    and "route E data destinations cs w = (r, w')"
  shows "\<exists>ps. parseMessage data = Inr ps \<and>
           (\<exists>rest. map snd (sends (since w w')) @ rest =
              concat (map (\<lambda>p. map (\<lambda>d. ReplaceAll (Regex d) (Key p) (Replace d) @ colon # Body p)
                                 destinations) ps)) \<and>
           (\<forall>cs'. r = Inr cs' \<longrightarrow>
              map snd (sends (since w w')) =
                concat (map (\<lambda>p. map (\<lambda>d. ReplaceAll (Regex d) (Key p) (Replace d) @ colon # Body p)
                                   destinations) ps)) \<and>
           (\<forall>b\<in>set (map snd (sends (since w w'))). b \<noteq> [] \<and> last b \<noteq> newline) \<and>
           ((\<forall>k. write_err E k = None) \<longrightarrow>
              r = Inr cs \<and>
              map snd (delivered (since w w')) =
                concat (map (\<lambda>p. map (\<lambda>d. ReplaceAll (Regex d) (Key p) (Replace d) @ colon # Body p)
                                   destinations) ps))"
proof -
  let ?pairs = "\<lambda>ps. concat (map (\<lambda>p. map (\<lambda>d. (Address d, packet_for d p)) destinations) ps)"
  let ?packets = "\<lambda>ps. concat (map (\<lambda>p. map (\<lambda>d. ReplaceAll (Regex d) (Key p) (Replace d) @
                     colon # Body p) destinations) ps)"
  have snd_pairs: "map snd (?pairs ps) = ?packets ps" for ps
    by (simp add: map_concat comp_def packet_for_def Sprintf_s_colon_s_def)
  obtain ps where ps: "parseMessage data = Inr ps"
    by (simp add: parseMessage_eq)
  with assms(2) have rp: "range_packets E ps destinations cs w = (r, w')"
    by (simp add: route_def)
  from range_packets_effect [OF assms(1) rp] obtain new rest where
    new: "trace w' = trace w @ new" and part: "sends new @ rest = ?pairs ps"
    and whole: "\<forall>cs'. r = Inr cs' \<longrightarrow> sends new = ?pairs ps"
    by blast
  from new have since: "since w w' = new"
    by (rule since_append)
  from part have "map snd (sends new @ rest) = ?packets ps"
    by (simp only: snd_pairs)
  then have part': "map snd (sends new) @ map snd rest = ?packets ps"
    by simp
  from whole have whole': "\<forall>cs'. r = Inr cs' \<longrightarrow> map snd (sends new) = ?packets ps"
    by (simp only: snd_pairs [symmetric]) simp
  have good: "\<forall>b\<in>set (?packets ps). b \<noteq> [] \<and> last b \<noteq> newline"
  proof (rule concat_map_all)
    fix p d
    assume "p \<in> set ps"
    from parsed_body_no_newline [OF ps this]
    show "ReplaceAll (Regex d) (Key p) (Replace d) @ colon # Body p \<noteq> [] \<and>
          last (ReplaceAll (Regex d) (Key p) (Replace d) @ colon # Body p) \<noteq> newline"
      by (rule packet_no_trailing_newline)
  qed
  have "set (map snd (sends new)) \<subseteq> set (?packets ps)"
    by (subst part' [symmetric]) simp
  with good have clean: "\<forall>b\<in>set (map snd (sends new)). b \<noteq> [] \<and> last b \<noteq> newline"
    by blast
  have out: "(\<forall>k. write_err E k = None) \<longrightarrow>
      r = Inr cs \<and> map snd (delivered new) = ?packets ps"
  proof
    assume "\<forall>k. write_err E k = None"
    from range_packets_delivered [OF this assms(1) rp] obtain new2 where "r = Inr cs"
      and "trace w' = trace w @ new2" and "delivered new2 = ?pairs ps"
      by blast
    with new have "r = Inr cs" and "delivered new = ?pairs ps"
      by simp_all
    then show "r = Inr cs \<and> map snd (delivered new) = ?packets ps"
      by (simp only: snd_pairs [symmetric])
  qed
  from ps part' whole' clean out since show ?thesis
    by blast
qed

theorem route_packets_witness:
  "map RemoteAddr [Conn 0 ''127.0.0.1:9001'', Conn 1 ''127.0.0.1:9002''] =
     map Address example_destinations \<and>
   (\<forall>k. write_err quiet_env k = None) \<and>
   map snd (sends (since world0 (snd (route quiet_env ''stats.counter:5|c\<newline>'' example_destinations
       [Conn 0 ''127.0.0.1:9001'', Conn 1 ''127.0.0.1:9002''] world0)))) =
     [''prod.stats.counter:5|c'', ''dev.stats.counter:5|c''] \<and>
   map snd (delivered (since world0 (snd (route quiet_env ''stats.counter:5|c\<newline>''
       example_destinations [Conn 0 ''127.0.0.1:9001'', Conn 1 ''127.0.0.1:9002''] world0)))) =
     [''prod.stats.counter:5|c'', ''dev.stats.counter:5|c'']"
proof -
  let ?cs = "[Conn 0 ''127.0.0.1:9001'', Conn 1 ''127.0.0.1:9002'']"
  let ?run = "route quiet_env ''stats.counter:5|c\<newline>'' example_destinations ?cs world0"
  let ?all = "concat (map (\<lambda>p. map (\<lambda>d. ReplaceAll (Regex d) (Key p) (Replace d) @ colon # Body p)
                         example_destinations) [\<lparr>Key = ''stats.counter'', Body = ''5|c''\<rparr>])"
  have parsed: "parseMessage ''stats.counter:5|c\<newline>'' =
      Inr [\<lparr>Key = ''stats.counter'', Body = ''5|c''\<rparr>]"
    by code_simp
  have keys: "ReplaceAll (anchored_literal ''stats.'') ''stats.counter'' ''prod.stats.'' = ''prod.stats.counter''"
    "ReplaceAll (anchored_literal ''stats.'') ''stats.counter'' ''dev.stats.'' = ''dev.stats.counter''"
    by code_simp+
  have aligned: "map RemoteAddr ?cs = map Address example_destinations"
    by (simp add: example_destinations_def)
  have quiet: "\<forall>k. write_err quiet_env k = None"
    by (simp add: quiet_env_def)
  have run: "?run = (fst ?run, snd ?run)"
    by simp
  from route_packets [OF aligned run] parsed quiet
  have "fst ?run = Inr ?cs \<and> map snd (delivered (since world0 (snd ?run))) = ?all"
    by auto
  moreover from this route_packets [OF aligned run] parsed
  have "map snd (sends (since world0 (snd ?run))) = ?all"
    by auto
  moreover have "?all = [''prod.stats.counter:5|c'', ''dev.stats.counter:5|c'']"
    by (simp add: example_destinations_def keys)
  ultimately show ?thesis
    using aligned quiet by simp
qed

text \<open>
  The claim C4 as stated fails where a write and its reconnect fail: one packet is
  parsed, the two destinations are connected in order, the write to the first
  destination fails and so does every dial; the process ends with status 1 after this
  one write, no datagram has gone out, and the second destination has not been written
  to at all.
\<close>

theorem route_dead_counterexample:
  "parseMessage ''stats.k:1'' = Inr [\<lparr>Key = ''stats.k'', Body = ''1''\<rparr>] \<and>
   map RemoteAddr [Conn 7 ''127.0.0.1:9001'', Conn 8 ''127.0.0.1:9002''] =
     map Address example_destinations \<and>
   fst (route dead_env ''stats.k:1'' example_destinations
       [Conn 7 ''127.0.0.1:9001'', Conn 8 ''127.0.0.1:9002''] world0) = Inl (Exit 1) \<and>
   sends (trace (snd (route dead_env ''stats.k:1'' example_destinations
       [Conn 7 ''127.0.0.1:9001'', Conn 8 ''127.0.0.1:9002''] world0))) =
     [(''127.0.0.1:9001'', ''prod.stats.k:1'')] \<and>
   delivered (trace (snd (route dead_env ''stats.k:1'' example_destinations
       [Conn 7 ''127.0.0.1:9001'', Conn 8 ''127.0.0.1:9002''] world0))) = []"
proof -
  have parsed: "parseMessage ''stats.k:1'' = Inr [\<lparr>Key = ''stats.k'', Body = ''1''\<rparr>]"
    by code_simp
  have key: "ReplaceAll (anchored_literal ''stats.'') ''stats.k'' ''prod.stats.'' = ''prod.stats.k''"
    by code_simp
  show ?thesis
    by (simp add: parsed route_def send_one_def index_def conn_Write_def emit_def dead_env_def
          flaky_env_def quiet_env_def example_destinations_def world0_def Let_def log_Printf_def
          conn_Close_def net_DialTimeout_def log_Fatalf_def key Sprintf_s_colon_s_def)
qed

text \<open>
  Claim C5. Where the pattern finds no match in the key, \<open>ReplaceAll\<close> returns the key as
  it is. The bytes that the router writes for a packet and a destination depend on the
  packet and the destination alone: two passes with the same packet and destination
  write the same bytes, whatever the network, the table of connections and the state
  of the world are.
\<close>

theorem rewrite_pure:
  "(doExecute re key 0 = [] \<longrightarrow> ReplaceAll re key repl = key) \<and>
   (i < length cs \<and> j < length cs' \<longrightarrow>
      map snd (sends (since w (snd (send_one E p i d cs w)))) =
      map snd (sends (since w' (snd (send_one E' p j d cs' w')))))"
proof
  show "doExecute re key 0 = [] \<longrightarrow> ReplaceAll re key repl = key"
    by (simp add: ReplaceAll_def replaceAll_loop.simps [of re key repl 0 0])
next
  have one: "map snd (sends (since v (snd (send_one F p k d xs v)))) = [packet_for d p]"
    if k: "k < length xs" for F k xs v
  proof -
    obtain r v' where rv: "send_one F p k d xs v = (r, v')"
      by (cases "send_one F p k d xs v")
    have "\<exists>new. trace v' = trace v @ new \<and> map snd (sends new) = [packet_for d p]"
    proof (cases "write_err F (writes v)")
      case None
      with k rv show ?thesis
        by (auto simp: send_one_def index_def conn_Write_def emit_def packet_for_def Let_def)
    next
      case (Some err)
      with k rv show ?thesis
        by (cases "dial_err F (dials v)")
          (auto simp: send_one_def index_def conn_Write_def emit_def packet_for_def Let_def
            log_Printf_def conn_Close_def net_DialTimeout_def log_Fatalf_def)
    qed
    with rv show ?thesis
      by (auto simp: since_append)
  qed
  show "i < length cs \<and> j < length cs' \<longrightarrow>
      map snd (sends (since w (snd (send_one E p i d cs w)))) =
      map snd (sends (since w' (snd (send_one E' p j d cs' w'))))"
    by (simp add: one)
qed

theorem rewrite_pure_witness:
  "doExecute (anchored_literal ''stats.'') ''other.key'' 0 = [] \<and>
   ReplaceAll (anchored_literal ''stats.'') ''other.key'' ''prod.stats.'' = ''other.key'' \<and>
   map snd (sends (since world0 (snd (send_one quiet_env \<lparr>Key = ''stats.k'', Body = ''1''\<rparr> 0
       (hd example_destinations) [Conn 0 ''127.0.0.1:9001''] world0)))) =
   map snd (sends (since world0 (snd (send_one dead_env \<lparr>Key = ''stats.k'', Body = ''1''\<rparr> 1
       (hd example_destinations) [Conn 7 ''x'', Conn 8 ''y''] world0))))"
proof -
  have none: "doExecute (anchored_literal ''stats.'') ''other.key'' 0 = []"
    by (simp add: anchored_literal_def)
  have "(0::nat) < length [Conn 0 ''127.0.0.1:9001''] \<and> (1::nat) < length [Conn 7 ''x'', Conn 8 ''y'']"
    by simp
  with none
    rewrite_pure [of "anchored_literal ''stats.''" "''other.key''" "''prod.stats.''"
      0 "[Conn 0 ''127.0.0.1:9001'']" 1 "[Conn 7 ''x'', Conn 8 ''y'']" world0 quiet_env
      "\<lparr>Key = ''stats.k'', Body = ''1''\<rparr>" "hd example_destinations" world0 dead_env]
  show ?thesis
    by blast
qed

text \<open>
  Claim C7, amended. The fan-out of one packet, whatever writes fail on the way: either
  it returns and every destination has got its send, in the order of the configuration,
  or the process has ended with status 1 and a dial has failed. So a failed write whose
  reconnect succeeds does not keep the router from the remaining destinations; only a
  failed reconnect does, since it ends the process.
\<close>

theorem fanout_continues:
  assumes "map RemoteAddr cs = map Address destinations"
    and "range_destinations E p 0 destinations cs w = (r, w')"
  shows "(\<exists>cs'. r = Inr cs' \<and>
            sends (since w w') = map (\<lambda>d. (Address d, packet_for d p)) destinations) \<or>
         (r = Inl (Exit 1) \<and> (\<exists>a err. EvDial a Second (Inl err) \<in> set (since w w')))"
proof (cases r)
  case (Inl st)
  from assms(1) have "drop 0 (map RemoteAddr cs) = map Address destinations"
    by simp
  from range_destinations_stop [OF this assms(2) [unfolded Inl]] Inl show ?thesis
    by blast
next
  case (Inr cs')
  from assms(1) have "drop 0 (map RemoteAddr cs) = map Address destinations"
    by simp
  from range_destinations_effect [OF this assms(2)] Inr obtain new where
    "trace w' = trace w @ new"
    and "sends new = map (\<lambda>d. (Address d, packet_for d p)) destinations"
    by blast
  with Inr show ?thesis
    by (simp add: since_append)
qed

theorem fanout_continues_witness:
  "write_err flaky_env (writes world0) = Some ''connection refused'' \<and>
   fst (range_destinations flaky_env \<lparr>Key = ''stats.k'', Body = ''1''\<rparr> 0 example_destinations
       [Conn 7 ''127.0.0.1:9001'', Conn 8 ''127.0.0.1:9002''] world0) =
     Inr [Conn 0 ''127.0.0.1:9001'', Conn 8 ''127.0.0.1:9002''] \<and>
   sends (since world0 (snd (range_destinations flaky_env \<lparr>Key = ''stats.k'', Body = ''1''\<rparr> 0
       example_destinations [Conn 7 ''127.0.0.1:9001'', Conn 8 ''127.0.0.1:9002''] world0))) =
     [(''127.0.0.1:9001'', ''prod.stats.k:1''), (''127.0.0.1:9002'', ''dev.stats.k:1'')]"
proof -
  let ?p = "\<lparr>Key = ''stats.k'', Body = ''1''\<rparr>"
  let ?cs = "[Conn 7 ''127.0.0.1:9001'', Conn 8 ''127.0.0.1:9002'']"
  let ?run = "range_destinations flaky_env ?p 0 example_destinations ?cs world0"
  have aligned: "map RemoteAddr ?cs = map Address example_destinations"
    by (simp add: example_destinations_def)
  have wf: "write_err flaky_env (writes world0) = Some ''connection refused''"
    by (simp add: flaky_env_def quiet_env_def world0_def)
  have keys: "ReplaceAll (anchored_literal ''stats.'') ''stats.k'' ''prod.stats.'' = ''prod.stats.k''"
    "ReplaceAll (anchored_literal ''stats.'') ''stats.k'' ''dev.stats.'' = ''dev.stats.k''"
    by code_simp+
  have goes_on: "fst ?run = Inr [Conn 0 ''127.0.0.1:9001'', Conn 8 ''127.0.0.1:9002'']"
    by (simp add: send_one_def index_def conn_Write_def emit_def flaky_env_def quiet_env_def
          example_destinations_def world0_def Let_def log_Printf_def conn_Close_def
          net_DialTimeout_def)
  from fanout_continues [OF aligned prod.collapse [symmetric], of flaky_env ?p world0] goes_on
  have "sends (since world0 (snd ?run)) =
      map (\<lambda>d. (Address d, packet_for d ?p)) example_destinations"
    by auto
  then have "sends (since world0 (snd ?run)) =
      [(''127.0.0.1:9001'', ''prod.stats.k:1''), (''127.0.0.1:9002'', ''dev.stats.k:1'')]"
    by (simp add: example_destinations_def packet_for_def keys Sprintf_s_colon_s_def)
  with wf goes_on show ?thesis
    by blast
qed

text \<open>
  The claim C7 as stated fails where the reconnect fails: with two destinations, a
  first write that fails and a network in which no dial succeeds, the process ends
  after the send to the first destination, and the second destination gets nothing.
\<close>

theorem fanout_stops_counterexample:
  "write_err dead_env (writes world0) = Some ''connection refused'' \<and>
   fst (range_destinations dead_env \<lparr>Key = ''stats.k'', Body = ''1''\<rparr> 0 example_destinations
       [Conn 7 ''127.0.0.1:9001'', Conn 8 ''127.0.0.1:9002''] world0) = Inl (Exit 1) \<and>
   sends (trace (snd (range_destinations dead_env \<lparr>Key = ''stats.k'', Body = ''1''\<rparr> 0
       example_destinations [Conn 7 ''127.0.0.1:9001'', Conn 8 ''127.0.0.1:9002''] world0))) =
     [(''127.0.0.1:9001'', ''prod.stats.k:1'')]"
proof -
  have key: "ReplaceAll (anchored_literal ''stats.'') ''stats.k'' ''prod.stats.'' = ''prod.stats.k''"
    by code_simp
  show ?thesis
    by (simp add: send_one_def index_def conn_Write_def emit_def dead_env_def flaky_env_def
          quiet_env_def example_destinations_def world0_def Let_def log_Printf_def
          conn_Close_def net_DialTimeout_def log_Fatalf_def key Sprintf_s_colon_s_def)
qed

text \<open>
  The routing keeps the discipline of the table: every write goes to the connection that
  the table holds for its destination at that moment, and the table changes only when
  a reconnect succeeds, at the place of the destination whose write has just failed.
\<close>

lemma follow_append:
  "follow st (xs @ ys) = (case follow st xs of None \<Rightarrow> None | Some st1 \<Rightarrow> follow st1 ys)"
  by (induction xs arbitrary: st) (auto split: option.splits)

lemma follow_quiet:
  assumes "\<forall>e\<in>set es. (\<forall>c b r. e \<noteq> EvWrite c b r) \<and> (\<forall>a t r. e \<noteq> EvDial a t r)"
  shows "follow st es = Some st"
  using assms
proof (induction es)
  case Nil
  then show ?case by simp
next
  case (Cons e es)
  then have "follow_event st e = Some st"
    by (cases e; cases st) auto
  with Cons show ?case
    by simp
qed

lemma send_one_follow:
  assumes i: "i < length cs" and addr: "RemoteAddr (cs ! i) = Address d"
    and run: "send_one E p i d cs w = (r, w')"
  shows "\<exists>new st. trace w' = trace w @ new \<and> follow (cs, i, None) new = Some st \<and>
           (\<forall>cs'. r = Inr cs' \<longrightarrow> st = (cs', (i + 1) mod length cs, None))"
proof (cases "write_err E (writes w)")
  case None
  with i run have "r = Inr cs"
    and "trace w' = trace w @ [EvWrite (cs ! i) (packet_for d p) None]"
    by (auto simp: send_one_def index_def conn_Write_def emit_def packet_for_def Let_def)
  moreover from i have "follow (cs, i, None) [EvWrite (cs ! i) (packet_for d p) None] =
      Some (cs, (i + 1) mod length cs, None)"
    by simp
  ultimately show ?thesis
    by blast
next
  case (Some err)
  show ?thesis
  proof (cases "dial_err E (dials w)")
    case None
    let ?c2 = "Conn (dials w) (Address d)"
    let ?new = "[EvWrite (cs ! i) (packet_for d p) (Some err),
                 EvLog ''ERROR: writing to UDP socket - %s'' [ArgErr err],
                 EvClose (cs ! i),
                 EvDial (Address d) Second (Inr ?c2)]"
    from None Some i run have "r = Inr (cs[i := ?c2])" and "trace w' = trace w @ ?new"
      by (auto simp: send_one_def index_def conn_Write_def emit_def packet_for_def Let_def
            log_Printf_def conn_Close_def net_DialTimeout_def)
    moreover from i addr have "follow (cs, i, None) ?new =
        Some (cs[i := ?c2], (i + 1) mod length cs, None)"
      by simp
    ultimately show ?thesis
      by blast
  next
    case (Some err2)
    let ?new = "[EvWrite (cs ! i) (packet_for d p) (Some err),
                 EvLog ''ERROR: writing to UDP socket - %s'' [ArgErr err],
                 EvClose (cs ! i),
                 EvDial (Address d) Second (Inl err2),
                 EvLog ''ERROR: UDP connection failed - %s'' [ArgErr err2]]"
    from Some \<open>write_err E (writes w) = Some err\<close> i run
    have "r = Inl (Exit 1)" and "trace w' = trace w @ ?new"
      by (auto simp: send_one_def index_def conn_Write_def emit_def packet_for_def Let_def
            log_Printf_def conn_Close_def net_DialTimeout_def log_Fatalf_def)
    moreover from i addr have "follow (cs, i, None) ?new =
        Some (cs, (i + 1) mod length cs, Some i)"
      by simp
    ultimately show ?thesis
      by blast
  qed
qed

lemma send_one_length:
  assumes "send_one E p i d cs w = (Inr cs', w')"
  shows "length cs' = length cs"
  using assms
  by (auto simp: send_one_def index_def conn_Write_def Let_def net_DialTimeout_def
        log_Fatalf_def split: if_splits option.splits)

lemma range_destinations_follow:
  assumes "drop i (map RemoteAddr cs) = map Address ds" and "i + length ds = length cs"
    and "range_destinations E p i ds cs w = (r, w')"
  shows "\<exists>new st. trace w' = trace w @ new \<and>
           follow (cs, i mod length cs, None) new = Some st \<and>
           (\<forall>cs'. r = Inr cs' \<longrightarrow> st = (cs', 0, None))"
  using assms
proof (induction ds arbitrary: i cs w)
  case Nil
  then have "i mod length cs = 0" and "r = Inr cs" and "w' = w"
    by simp_all
  then show ?case
    by simp
next
  case (Cons d ds)
  from Cons.prems(2) have i: "i < length cs"
    by simp
  from Cons.prems(1) i have addr: "RemoteAddr (cs ! i) = Address d"
    and tail: "drop (i + 1) (map RemoteAddr cs) = map Address ds"
    by (simp_all add: Cons_nth_drop_Suc [symmetric])
  obtain r1 w1 where one: "send_one E p i d cs w = (r1, w1)"
    by (cases "send_one E p i d cs w")
  from send_one_follow [OF i addr one] obtain new1 st1 where
    t1: "trace w1 = trace w @ new1" and f1: "follow (cs, i, None) new1 = Some st1"
    and c1: "\<forall>cs'. r1 = Inr cs' \<longrightarrow> st1 = (cs', (i + 1) mod length cs, None)"
    by blast
  from i have start: "i mod length cs = i"
    by simp
  show ?case
  proof (cases r1)
    case (Inl st)
    with one Cons.prems(3) have "r = Inl st" and "w' = w1"
      by simp_all
    with t1 f1 start have "trace w' = trace w @ new1 \<and>
        follow (cs, i mod length cs, None) new1 = Some st1 \<and>
        (\<forall>cs'. r = Inr cs' \<longrightarrow> st1 = (cs', 0, None))"
      by simp
    then show ?thesis
      by blast
  next
    case (Inr cs1)
    with one Cons.prems(3) have rest: "range_destinations E p (i + 1) ds cs1 w1 = (r, w')"
      by simp
    from one Inr have len: "length cs1 = length cs"
      by (auto dest: send_one_length)
    from send_one_effect [OF i addr one] Inr have "map RemoteAddr cs1 = map RemoteAddr cs"
      by blast
    with tail have tail1: "drop (i + 1) (map RemoteAddr cs1) = map Address ds"
      by simp
    from Cons.prems(2) len have "(i + 1) + length ds = length cs1"
      by simp
    from Cons.IH [OF tail1 this rest] obtain new2 st2 where
      t2: "trace w' = trace w1 @ new2"
      and f2: "follow (cs1, (i + 1) mod length cs1, None) new2 = Some st2"
      and c2: "\<forall>cs'. r = Inr cs' \<longrightarrow> st2 = (cs', 0, None)"
      by blast
    from c1 Inr len have "st1 = (cs1, (i + 1) mod length cs1, None)"
      by simp
    with f1 f2 start have "follow (cs, i mod length cs, None) (new1 @ new2) = Some st2"
      by (simp add: follow_append)
    moreover from t1 t2 have "trace w' = trace w @ (new1 @ new2)"
      by simp
    ultimately show ?thesis
      using c2 by blast
  qed
qed

lemma range_packets_follow:
  assumes "map RemoteAddr cs = map Address ds"
    and "range_packets E ps ds cs w = (r, w')"
  shows "\<exists>new st. trace w' = trace w @ new \<and> follow (cs, 0, None) new = Some st \<and>
           (\<forall>cs'. r = Inr cs' \<longrightarrow> st = (cs', 0, None))"
  using assms
proof (induction ps arbitrary: cs w)
  case Nil
  then show ?case by auto
next
  case (Cons p ps)
  obtain r1 w1 where one: "range_destinations E p 0 ds cs w = (r1, w1)"
    by (cases "range_destinations E p 0 ds cs w")
  from Cons.prems(1) have al: "drop 0 (map RemoteAddr cs) = map Address ds"
    and len: "0 + length ds = length cs"
    by (simp_all, metis length_map)
  from range_destinations_follow [OF al len one] obtain new1 st1 where
    t1: "trace w1 = trace w @ new1" and f1: "follow (cs, 0, None) new1 = Some st1"
    and c1: "\<forall>cs'. r1 = Inr cs' \<longrightarrow> st1 = (cs', 0, None)"
    by auto
  show ?case
  proof (cases r1)
    case (Inl st)
    with one Cons.prems(2) have "r = Inl st" and "w' = w1"
      by simp_all
    with t1 f1 have "trace w' = trace w @ new1 \<and> follow (cs, 0, None) new1 = Some st1 \<and>
        (\<forall>cs'. r = Inr cs' \<longrightarrow> st1 = (cs', 0, None))"
      by simp
    then show ?thesis
      by blast
  next
    case (Inr cs1)
    with one Cons.prems(2) have rest: "range_packets E ps ds cs1 w1 = (r, w')"
      by simp
    from range_destinations_effect [OF al one] Inr Cons.prems(1)
    have "map RemoteAddr cs1 = map Address ds"
      by auto
    from Cons.IH [OF this rest] obtain new2 st2 where
      t2: "trace w' = trace w1 @ new2" and f2: "follow (cs1, 0, None) new2 = Some st2"
      and c2: "\<forall>cs'. r = Inr cs' \<longrightarrow> st2 = (cs', 0, None)"
      by blast
    from c1 Inr f1 f2 have "follow (cs, 0, None) (new1 @ new2) = Some st2"
      by (simp add: follow_append)
    moreover from t1 t2 have "trace w' = trace w @ (new1 @ new2)"
      by simp
    ultimately show ?thesis
      using c2 by blast
  qed
qed

lemma route_follow:
  assumes "map RemoteAddr cs = map Address ds" and "route E data ds cs w = (r, w')"
  shows "\<exists>new st. trace w' = trace w @ new \<and> follow (cs, 0, None) new = Some st \<and>
           (\<forall>cs'. r = Inr cs' \<longrightarrow> st = (cs', 0, None))"
proof -
  from assms(2) have "range_packets E
      (concat (map packets_of_line (Split data newline))) ds cs w = (r, w')"
    by (simp add: route_def parseMessage_eq)
  from range_packets_follow [OF assms(1) this] show ?thesis .
qed

lemma dial_all_follow:
  assumes "dial_all E ds cs w = (r, w')"
  shows "\<exists>new st. trace w' = trace w @ new \<and> follow (cs, i, None) new = Some st \<and>
           (\<forall>cs'. r = Inr cs' \<longrightarrow> st = (cs', i, None))"
  using assms
proof (induction ds arbitrary: cs w)
  case Nil
  then show ?case by auto
next
  case (Cons d ds)
  show ?case
  proof (cases "dial_err E (dials w)")
    case None
    let ?c = "Conn (dials w) (Address d)"
    let ?w1 = "emit (EvDial (Address d) Second (Inr ?c)) (w\<lparr>dials := dials w + 1\<rparr>)"
    from None Cons.prems have "dial_all E ds (cs @ [?c]) ?w1 = (r, w')"
      by (simp add: net_DialTimeout_def Let_def)
    from Cons.IH [OF this] obtain new2 st2 where
      t2: "trace w' = trace ?w1 @ new2" and f2: "follow (cs @ [?c], i, None) new2 = Some st2"
      and c2: "\<forall>cs'. r = Inr cs' \<longrightarrow> st2 = (cs', i, None)"
      by blast
    from t2 have "trace w' = trace w @ (EvDial (Address d) Second (Inr ?c) # new2)"
      by (simp add: emit_def)
    moreover from f2 have "follow (cs, i, None) (EvDial (Address d) Second (Inr ?c) # new2) = Some st2"
      by simp
    ultimately show ?thesis
      using c2 by blast
  next
    case (Some err)
    let ?new = "[EvDial (Address d) Second (Inl err),
                 EvLog ''ERROR: UDP connection failed - %s'' [ArgErr err]]"
    from Some Cons.prems have "r = Inl (Exit 1)" and "trace w' = trace w @ ?new"
      by (auto simp: net_DialTimeout_def Let_def log_Fatalf_def emit_def)
    moreover have "follow (cs, i, None) ?new = Some (cs, i, None)"
      by simp
    ultimately show ?thesis
      by blast
  qed
qed

section \<open>Properties of the listeners and of the whole programs\<close>





















text \<open>
  In every run of the program of \<open>main.go\<close> the router, once it has dialed, holds one
  connection per destination, dialed to the address of the destination: this is what
  the properties of the routing of a datagram assume.
\<close>

lemma processData_step_aligned:
  assumes "connected s \<longrightarrow> map RemoteAddr (destConns s) = map Address ds"
    and "processData_step E ds s w = (Inr s', w')"
  shows "connected s' \<longrightarrow> map RemoteAddr (destConns s') = map Address ds"
proof (cases "connected s")
  case False
  obtain r1 w1 where d: "dial_all E ds [] w = (r1, w1)"
    by (cases "dial_all E ds [] w")
  with False assms(2) obtain cs where "r1 = Inr cs" and "destConns s' = cs"
    by (cases r1) (auto simp: processData_step_def)
  with d dial_all_effect [of E ds "[]" w cs w1] show ?thesis
    by simp
next
  case True
  show ?thesis
  proof (cases "dataCh s")
    case Nil
    with True assms show ?thesis
      by (simp add: processData_step_def)
  next
    case (Cons data rest)
    obtain r1 w1 where rt: "route E (slice_bytes w data) ds (destConns s) w = (r1, w1)"
      by (cases "route E (slice_bytes w data) ds (destConns s) w")
    with True Cons assms(2) obtain cs where r1: "r1 = Inr cs" and "destConns s' = cs"
      by (cases r1) (auto simp: processData_step_def)
    moreover from rt r1 have "range_packets E
        (concat (map packets_of_line (Split (slice_bytes w data) newline))) ds (destConns s) w =
        (Inr cs, w1)"
      by (simp add: route_def parseMessage_eq)
    with True assms(1) have "map RemoteAddr cs = map Address ds"
      using range_packets_effect by blast
    ultimately show ?thesis
      by simp
  qed
qed

lemma run_aligned:
  assumes "connected s \<longrightarrow> map RemoteAddr (destConns s) = map Address ds"
    and "run E addr ds schedule s w = (Inr s', w')"
  shows "connected s' \<longrightarrow> map RemoteAddr (destConns s') = map Address ds"
  using assms
proof (induction schedule arbitrary: s w)
  case Nil
  then show ?case by simp
next
  case (Cons t ts)
  let ?step = "case t of Listener \<Rightarrow> udpListener_step E addr s w
                | Router \<Rightarrow> processData_step E ds s w"
  obtain r1 w1 where step: "?step = (r1, w1)"
    by (cases ?step)
  with Cons.prems(2) obtain s1 where r1: "r1 = Inr s1"
    and rest: "run E addr ds ts s1 w1 = (Inr s', w')"
    by (cases r1) auto
  have "connected s1 \<longrightarrow> map RemoteAddr (destConns s1) = map Address ds"
  proof (cases t)
    case Listener
    with step r1 have "udpListener_step E addr s w = (Inr s1, w1)"
      by simp
    then have "connected s1 = connected s \<and> destConns s1 = destConns s"
      by (auto simp: udpListener_step_def split: if_splits option.splits prod.splits sum.splits)
    with Cons.prems(1) show ?thesis
      by simp
  next
    case Router
    with step r1 have "processData_step E ds s w = (Inr s1, w1)"
      by simp
    from processData_step_aligned [OF Cons.prems(1) this] show ?thesis .
  qed
  from Cons.IH [OF this rest] show ?case .
qed

text \<open>
  The end-to-end scenario, on both programs: the destinations given on the command line
  are the two of \<open>example_destinations\<close>; after one datagram \<open>stats.counter:5|c\<close> the first
  destination has got \<open>prod.stats.counter:5|c\<close> and the second \<open>dev.stats.counter:5|c\<close>.
\<close>

lemma scenario_destinations:
  "parse_destinations quiet_env (destinationAddresses scenario) [] = Inr example_destinations"
proof -
  have "Split ''127.0.0.1:9001:^stats[.]:prod.stats.'' colon =
      [''127.0.0.1'', ''9001'', ''^stats[.]'', ''prod.stats.'']"
    and "Split ''127.0.0.1:9002:^stats[.]:dev.stats.'' colon =
      [''127.0.0.1'', ''9002'', ''^stats[.]'', ''dev.stats.'']"
    by code_simp+
  then show ?thesis
    by (simp add: scenario_def example_destinations_def quiet_env_def index_def
          Sprintf_s_colon_s_def)
qed

lemma scenario_packets:
  "parseMessage ''stats.counter:5|c\<newline>'' = Inr [\<lparr>Key = ''stats.counter'', Body = ''5|c''\<rparr>]"
  "ReplaceAll (anchored_literal ''stats.'') ''stats.counter'' ''prod.stats.'' = ''prod.stats.counter''"
  "ReplaceAll (anchored_literal ''stats.'') ''stats.counter'' ''dev.stats.'' = ''dev.stats.counter''"
  by code_simp+

lemmas program_defs =
  main_def main_v01_def udpListener_v01_def udpListener_v01_read_def udpListener_step_def
  udpListener_start_def udpListener_iteration_def processData_step_def slice_bytes_def
  ReadFromUDP_def make_bytes_def route_def send_one_def index_def conn_Write_def conn_Close_def
  emit_def Let_def log_Printf_def log_Fatalf_def net_DialTimeout_def Sprintf_s_colon_s_def
  sys0_def world0_def

lemma scenario_v01:
  "sends (trace (snd (main_v01 quiet_env scenario 1 world0))) =
     [(''127.0.0.1:9001'', ''prod.stats.counter:5|c''),
      (''127.0.0.1:9002'', ''dev.stats.counter:5|c'')]"
proof -
  have "main_v01 quiet_env scenario 1 world0 =
      udpListener_v01 quiet_env '':8125'' example_destinations 1 world0"
    by (simp add: main_v01_def scenario_destinations) (simp add: scenario_def example_destinations_def)
  then show ?thesis
    by (simp add: program_defs quiet_env_def example_destinations_def scenario_packets)
qed

lemma scenario_main:
  "sends (trace (snd (main quiet_env scenario [Listener, Router, Listener, Router] world0))) =
     [(''127.0.0.1:9001'', ''prod.stats.counter:5|c''),
      (''127.0.0.1:9002'', ''dev.stats.counter:5|c'')]"
proof -
  have flags: "address scenario = '':8125''" "showVersion scenario = False"
    by (simp_all add: scenario_def)
  have "main quiet_env scenario [Listener, Router, Listener, Router] world0 =
      run quiet_env (address scenario) example_destinations
        [Listener, Router, Listener, Router] sys0 world0"
    by (simp add: main_def scenario_destinations flags(2) example_destinations_def)
  then show ?thesis
    unfolding flags(1)
    by (simp add: program_defs quiet_env_def example_destinations_def scenario_packets)
qed







text \<open>
  The whole programs keep the discipline of the table as well, from the empty table
  on: the listener neither writes nor dials, and the router hands the table from one
  datagram to the next.
\<close>

lemma udpListener_start_quiet:
  assumes "udpListener_start E addr w = (r, w')"
  shows "\<exists>new. trace w' = trace w @ new \<and>
           (\<forall>e\<in>set new. (\<forall>c b r. e \<noteq> EvWrite c b r) \<and> (\<forall>a t r. e \<noteq> EvDial a t r))"
  using assms
  by (auto simp: udpListener_start_def Let_def emit_def log_Printf_def log_Fatalf_def
        split: option.splits)

lemma udpListener_iteration_quiet:
  assumes "udpListener_iteration E w = (res, w')"
  shows "\<exists>new. trace w' = trace w @ new \<and>
           (\<forall>e\<in>set new. (\<forall>c b r. e \<noteq> EvWrite c b r) \<and> (\<forall>a t r. e \<noteq> EvDial a t r))"
  using assms
  by (auto simp: udpListener_iteration_def make_bytes_def ReadFromUDP_def Let_def emit_def
        log_Printf_def split: prod.splits sum.splits)

lemma udpListener_v01_read_quiet:
  assumes "udpListener_v01_read E m w = (res, w')"
  shows "\<exists>new. trace w' = trace w @ new \<and>
           (\<forall>e\<in>set new. (\<forall>c b r. e \<noteq> EvWrite c b r) \<and> (\<forall>a t r. e \<noteq> EvDial a t r))"
  using assms
  by (auto simp: udpListener_v01_read_def ReadFromUDP_def Let_def emit_def log_Printf_def
        split: prod.splits sum.splits)

lemma udpListener_step_follow:
  assumes "udpListener_step E addr s w = (r, w')"
  shows "\<exists>new. trace w' = trace w @ new \<and> follow st new = Some st \<and>
           (\<forall>s'. r = Inr s' \<longrightarrow> connected s' = connected s \<and> destConns s' = destConns s)"
proof (cases "listening s")
  case False
  obtain r1 w1 where start: "udpListener_start E addr w = (r1, w1)"
    by (cases "udpListener_start E addr w")
  with False assms have "w' = w1"
    and "\<forall>s'. r = Inr s' \<longrightarrow> connected s' = connected s \<and> destConns s' = destConns s"
    by (cases r1; auto simp: udpListener_step_def)+
  with udpListener_start_quiet [OF start] show ?thesis
    by (auto intro: follow_quiet)
next
  case True
  show ?thesis
  proof (cases "pending s")
    case (Some sl)
    with True assms have "w' = w"
      and "\<forall>s'. r = Inr s' \<longrightarrow> connected s' = connected s \<and> destConns s' = destConns s"
      by (auto simp: udpListener_step_def split: if_splits)
    then have "trace w' = trace w @ [] \<and> follow st [] = Some st \<and>
        (\<forall>s'. r = Inr s' \<longrightarrow> connected s' = connected s \<and> destConns s' = destConns s)"
      by simp
    then show ?thesis
      by blast
  next
    case None
    obtain res w1 where it: "udpListener_iteration E w = (res, w1)"
      by (cases "udpListener_iteration E w")
    with True None assms have "w' = w1"
      and "\<forall>s'. r = Inr s' \<longrightarrow> connected s' = connected s \<and> destConns s' = destConns s"
      by (cases res; auto simp: udpListener_step_def split: if_splits)+
    with udpListener_iteration_quiet [OF it] show ?thesis
      by (auto intro: follow_quiet)
  qed
qed

lemma processData_step_follow:
  assumes al: "connected s \<longrightarrow> map RemoteAddr (destConns s) = map Address ds"
    and empty: "\<not> connected s \<longrightarrow> destConns s = []"
    and step: "processData_step E ds s w = (r, w')"
  shows "\<exists>new st. trace w' = trace w @ new \<and> follow (destConns s, 0, None) new = Some st \<and>
           (\<forall>s'. r = Inr s' \<longrightarrow> st = (destConns s', 0, None) \<and> connected s')"
proof (cases "connected s")
  case False
  obtain r1 w1 where d: "dial_all E ds [] w = (r1, w1)"
    by (cases "dial_all E ds [] w")
  from dial_all_follow [OF d, of 0] obtain new st where
    t: "trace w1 = trace w @ new" and f: "follow ([], 0, None) new = Some st"
    and c: "\<forall>cs'. r1 = Inr cs' \<longrightarrow> st = (cs', 0, None)"
    by blast
  from False step d have "w' = w1"
    and "\<forall>s'. r = Inr s' \<longrightarrow> r1 = Inr (destConns s') \<and> connected s'"
    by (cases r1; auto simp: processData_step_def)+
  with t f c False empty have "trace w' = trace w @ new \<and>
      follow (destConns s, 0, None) new = Some st \<and>
      (\<forall>s'. r = Inr s' \<longrightarrow> st = (destConns s', 0, None) \<and> connected s')"
    by simp
  then show ?thesis
    by blast
next
  case True
  show ?thesis
  proof (cases "dataCh s")
    case Nil
    with True step have "w' = w" and "r = Inr s"
      by (simp_all add: processData_step_def)
    with True have "trace w' = trace w @ [] \<and> follow (destConns s, 0, None) [] =
        Some (destConns s, 0, None) \<and>
        (\<forall>s'. r = Inr s' \<longrightarrow> (destConns s, 0 :: nat, None :: nat option) = (destConns s', 0, None) \<and>
           connected s')"
      by auto
    then show ?thesis
      by blast
  next
    case (Cons data rest)
    obtain r1 w1 where rt: "route E (slice_bytes w data) ds (destConns s) w = (r1, w1)"
      by (cases "route E (slice_bytes w data) ds (destConns s) w")
    from True al have "map RemoteAddr (destConns s) = map Address ds"
      by simp
    from route_follow [OF this rt] obtain new st where
      t: "trace w1 = trace w @ new" and f: "follow (destConns s, 0, None) new = Some st"
      and c: "\<forall>cs'. r1 = Inr cs' \<longrightarrow> st = (cs', 0, None)"
      by blast
    from True Cons step rt have "w' = w1"
      and "\<forall>s'. r = Inr s' \<longrightarrow> r1 = Inr (destConns s') \<and> connected s'"
      by (cases r1; auto simp: processData_step_def)+
    with t f c have "trace w' = trace w @ new \<and>
        follow (destConns s, 0, None) new = Some st \<and>
        (\<forall>s'. r = Inr s' \<longrightarrow> st = (destConns s', 0, None) \<and> connected s')"
      by simp
    then show ?thesis
      by blast
  qed
qed

lemma run_follow:
  assumes "connected s \<longrightarrow> map RemoteAddr (destConns s) = map Address ds"
    and "\<not> connected s \<longrightarrow> destConns s = []"
    and "run E addr ds schedule s w = (r, w')"
  shows "\<exists>new st. trace w' = trace w @ new \<and> follow (destConns s, 0, None) new = Some st \<and>
           (\<forall>s'. r = Inr s' \<longrightarrow> st = (destConns s', 0, None))"
  using assms
proof (induction schedule arbitrary: s w)
  case Nil
  then have "trace w' = trace w @ [] \<and> follow (destConns s, 0, None) [] =
      Some (destConns s, 0, None) \<and>
      (\<forall>s'. r = Inr s' \<longrightarrow> (destConns s, 0 :: nat, None :: nat option) = (destConns s', 0, None))"
    by auto
  then show ?case
    by blast
next
  case (Cons t ts)
  let ?step = "case t of Listener \<Rightarrow> udpListener_step E addr s w
                | Router \<Rightarrow> processData_step E ds s w"
  obtain r1 w1 where step: "?step = (r1, w1)"
    by (cases ?step)
  have "\<exists>new1 st1. trace w1 = trace w @ new1 \<and>
      follow (destConns s, 0, None) new1 = Some st1 \<and>
      (\<forall>s1. r1 = Inr s1 \<longrightarrow> st1 = (destConns s1, 0, None) \<and>
         (connected s1 \<longrightarrow> map RemoteAddr (destConns s1) = map Address ds) \<and>
         (\<not> connected s1 \<longrightarrow> destConns s1 = []))"
  proof (cases t)
    case Listener
    with step have l: "udpListener_step E addr s w = (r1, w1)"
      by simp
    from udpListener_step_follow [OF l, of "(destConns s, 0, None)"] Cons.prems(1,2)
    show ?thesis
      by auto
  next
    case Router
    with step have p: "processData_step E ds s w = (r1, w1)"
      by simp
    from processData_step_follow [OF Cons.prems(1,2) p] obtain new1 st1 where
      "trace w1 = trace w @ new1" and "follow (destConns s, 0, None) new1 = Some st1"
      and "\<forall>s1. r1 = Inr s1 \<longrightarrow> st1 = (destConns s1, 0, None) \<and> connected s1"
      by blast
    moreover have "\<forall>s1. r1 = Inr s1 \<longrightarrow> connected s1 \<longrightarrow>
        map RemoteAddr (destConns s1) = map Address ds"
      using processData_step_aligned [OF Cons.prems(1)] p by blast
    ultimately show ?thesis
      by blast
  qed
  then obtain new1 st1 where t1: "trace w1 = trace w @ new1"
    and f1: "follow (destConns s, 0, None) new1 = Some st1"
    and c1: "\<forall>s1. r1 = Inr s1 \<longrightarrow> st1 = (destConns s1, 0, None) \<and>
         (connected s1 \<longrightarrow> map RemoteAddr (destConns s1) = map Address ds) \<and>
         (\<not> connected s1 \<longrightarrow> destConns s1 = [])"
    by blast
  show ?case
  proof (cases r1)
    case (Inl st)
    with step Cons.prems(3) have "r = Inl st" and "w' = w1"
      by simp_all
    with t1 f1 have "trace w' = trace w @ new1 \<and>
        follow (destConns s, 0, None) new1 = Some st1 \<and>
        (\<forall>s'. r = Inr s' \<longrightarrow> st1 = (destConns s', 0, None))"
      by simp
    then show ?thesis
      by blast
  next
    case (Inr s1)
    with step Cons.prems(3) have rest: "run E addr ds ts s1 w1 = (r, w')"
      by simp
    from c1 Inr have inv1: "connected s1 \<longrightarrow> map RemoteAddr (destConns s1) = map Address ds"
      "\<not> connected s1 \<longrightarrow> destConns s1 = []" and st1: "st1 = (destConns s1, 0, None)"
      by simp_all
    from Cons.IH [OF inv1 rest] obtain new2 st2 where
      t2: "trace w' = trace w1 @ new2" and f2: "follow (destConns s1, 0, None) new2 = Some st2"
      and c2: "\<forall>s'. r = Inr s' \<longrightarrow> st2 = (destConns s', 0, None)"
      by blast
    from f1 f2 st1 have "follow (destConns s, 0, None) (new1 @ new2) = Some st2"
      by (simp add: follow_append)
    moreover from t1 t2 have "trace w' = trace w @ (new1 @ new2)"
      by simp
    ultimately show ?thesis
      using c2 by blast
  qed
qed

lemma udpListener_v01_loop_follow:
  assumes "map RemoteAddr cs = map Address ds"
    and "udpListener_v01_loop E ds m passes cs w = (r, w')"
  shows "\<exists>new st. trace w' = trace w @ new \<and> follow (cs, 0, None) new = Some st \<and>
           (\<forall>cs'. r = Inr cs' \<longrightarrow> st = (cs', 0, None))"
  using assms
proof (induction passes arbitrary: cs w)
  case 0
  then have "trace w' = trace w @ [] \<and> follow (cs, 0, None) [] = Some (cs, 0, None) \<and>
      (\<forall>cs'. r = Inr cs' \<longrightarrow> (cs, 0 :: nat, None :: nat option) = (cs', 0, None))"
    by auto
  then show ?case
    by blast
next
  case (Suc passes)
  obtain res w1 where rd: "udpListener_v01_read E m w = (res, w1)"
    by (cases "udpListener_v01_read E m w")
  from udpListener_v01_read_quiet [OF rd] obtain new1 where t1: "trace w1 = trace w @ new1"
    and f1: "follow (cs, 0, None) new1 = Some (cs, 0, None)"
    by (auto intro: follow_quiet)
  show ?case
  proof (cases res)
    case None
    with rd Suc.prems(2) have "udpListener_v01_loop E ds m passes cs w1 = (r, w')"
      by simp
    from Suc.IH [OF Suc.prems(1) this] obtain new2 st2 where
      t2: "trace w' = trace w1 @ new2" and f2: "follow (cs, 0, None) new2 = Some st2"
      and c2: "\<forall>cs'. r = Inr cs' \<longrightarrow> st2 = (cs', 0, None)"
      by blast
    from f1 f2 have "follow (cs, 0, None) (new1 @ new2) = Some st2"
      by (simp add: follow_append)
    moreover from t1 t2 have "trace w' = trace w @ (new1 @ new2)"
      by simp
    ultimately show ?thesis
      using c2 by blast
  next
    case (Some data)
    obtain r2 w2 where rt: "route E data ds cs w1 = (r2, w2)"
      by (cases "route E data ds cs w1")
    from route_follow [OF Suc.prems(1) rt] obtain new2 st2 where
      t2: "trace w2 = trace w1 @ new2" and f2: "follow (cs, 0, None) new2 = Some st2"
      and c2: "\<forall>cs'. r2 = Inr cs' \<longrightarrow> st2 = (cs', 0, None)"
      by blast
    define new12 where "new12 = new1 @ new2"
    from f1 f2 have f12: "follow (cs, 0, None) new12 = Some st2"
      by (simp add: follow_append new12_def)
    from t1 t2 have t12: "trace w2 = trace w @ new12"
      by (simp add: new12_def)
    show ?thesis
    proof (cases r2)
      case (Inl st)
      with rd Some rt Suc.prems(2) have "r = Inl st" and "w' = w2"
        by simp_all
      with t12 f12 have "trace w' = trace w @ new12 \<and>
          follow (cs, 0, None) new12 = Some st2 \<and>
          (\<forall>cs'. r = Inr cs' \<longrightarrow> st2 = (cs', 0, None))"
        by simp
      then show ?thesis
        by blast
    next
      case (Inr cs1)
      with rd Some rt Suc.prems(2) have rest: "udpListener_v01_loop E ds m passes cs1 w2 = (r, w')"
        by simp
      from rt Inr have "range_packets E
          (concat (map packets_of_line (Split data newline))) ds cs w1 = (Inr cs1, w2)"
        by (simp add: route_def parseMessage_eq)
      with Suc.prems(1) have "map RemoteAddr cs1 = map Address ds"
        using range_packets_effect by blast
      from Suc.IH [OF this rest] obtain new3 st3 where
        t3: "trace w' = trace w2 @ new3" and f3: "follow (cs1, 0, None) new3 = Some st3"
        and c3: "\<forall>cs'. r = Inr cs' \<longrightarrow> st3 = (cs', 0, None)"
        by blast
      from c2 Inr f12 f3 have "follow (cs, 0, None) (new12 @ new3) = Some st3"
        by (simp add: follow_append)
      moreover from t12 t3 have "trace w' = trace w @ (new12 @ new3)"
        by simp
      ultimately show ?thesis
        using c3 by blast
    qed
  qed
qed

lemma udpListener_v01_follow:
  assumes "udpListener_v01 E addr ds passes w = (r, w')"
  shows "\<exists>new st. trace w' = trace w @ new \<and> follow ([], 0, None) new = Some st \<and>
           (\<forall>cs'. r = Inr cs' \<longrightarrow> st = (cs', 0, None))"
proof (cases "listen_err E")
  case (Some err)
  let ?new = "[EvLog ''listening on %s'' [ArgS addr], EvListen addr (Some err),
               EvLog ''ERROR: ListenUDP - %s'' [ArgErr err]]"
  from Some assms have "r = Inl (Exit 1)" and "trace w' = trace w @ ?new"
    by (auto simp: udpListener_v01_def Let_def log_Fatalf_def log_Printf_def emit_def)
  moreover have "follow ([], 0, None) ?new = Some ([], 0, None)"
    by simp
  ultimately show ?thesis
    by blast
next
  case None
  let ?new1 = "[EvLog ''listening on %s'' [ArgS addr], EvListen addr None]"
  let ?w2 = "emit (EvListen addr (listen_err E)) (log_Printf ''listening on %s'' [ArgS addr] w)"
  from None have t1: "trace ?w2 = trace w @ ?new1"
    by (simp add: emit_def log_Printf_def)
  have f1: "follow ([], 0, None) ?new1 = Some ([], 0, None)"
    by simp
  obtain r3 w3 where d: "dial_all E ds [] ?w2 = (r3, w3)"
    by (cases "dial_all E ds [] ?w2")
  from dial_all_follow [OF d, of 0] obtain new2 st2 where
    t2: "trace w3 = trace ?w2 @ new2" and f2: "follow ([], 0, None) new2 = Some st2"
    and c2: "\<forall>cs'. r3 = Inr cs' \<longrightarrow> st2 = (cs', 0, None)"
    by blast
  define new12 where "new12 = ?new1 @ new2"
  from f1 f2 have f12: "follow ([], 0, None) new12 = Some st2"
    by (simp add: new12_def)
  from t1 t2 have t12: "trace w3 = trace w @ new12"
    by (simp add: new12_def)
  show ?thesis
  proof (cases r3)
    case (Inl st)
    with None d assms have "r = Inl st" and "w' = w3"
      by (simp_all add: udpListener_v01_def Let_def)
    with t12 f12 have "trace w' = trace w @ new12 \<and>
        follow ([], 0, None) new12 = Some st2 \<and>
        (\<forall>cs'. r = Inr cs' \<longrightarrow> st2 = (cs', 0, None))"
      by simp
    then show ?thesis
      by blast
  next
    case (Inr cs)
    obtain m w4 where mk: "make_bytes 512 w3 = (m, w4)"
      by (cases "make_bytes 512 w3")
    then have t4: "trace w4 = trace w3"
      by (auto simp: make_bytes_def)
    from None d Inr assms mk have loop: "udpListener_v01_loop E ds m passes cs w4 = (r, w')"
      by (simp add: udpListener_v01_def Let_def)
    from d Inr have "map RemoteAddr cs = map Address ds"
      using dial_all_effect [of E ds "[]" ?w2 cs w3] by simp
    from udpListener_v01_loop_follow [OF this loop] obtain new3 st3 where
      t3: "trace w' = trace w4 @ new3" and f3: "follow (cs, 0, None) new3 = Some st3"
      and c3: "\<forall>cs'. r = Inr cs' \<longrightarrow> st3 = (cs', 0, None)"
      by blast
    from c2 Inr f12 f3 have "follow ([], 0, None) (new12 @ new3) = Some st3"
      by (simp add: follow_append)
    moreover from t12 t3 t4 have "trace w' = trace w @ (new12 @ new3)"
      by simp
    ultimately show ?thesis
      using c3 by blast
  qed
qed

lemma follow_accepts_new_connection:
  "follow ([Conn 7 ''A'', Conn 8 ''B''], 0, None)
     [EvWrite (Conn 7 ''A'') ''x'' (Some ''e''), EvLog ''l'' [], EvClose (Conn 7 ''A''),
      EvDial ''A'' Second (Inr (Conn 0 ''A'')), EvWrite (Conn 8 ''B'') ''x'' None,
      EvWrite (Conn 0 ''A'') ''y'' None, EvWrite (Conn 8 ''B'') ''y'' None] =
     Some ([Conn 0 ''A'', Conn 8 ''B''], 0, None)"
  by simp

lemma follow_rejects_closed_connection:
  "follow ([Conn 7 ''A'', Conn 8 ''B''], 0, None)
     [EvWrite (Conn 7 ''A'') ''x'' (Some ''e''), EvLog ''l'' [], EvClose (Conn 7 ''A''),
      EvDial ''A'' Second (Inr (Conn 0 ''A'')), EvWrite (Conn 8 ''B'') ''x'' None,
      EvWrite (Conn 7 ''A'') ''y'' None, EvWrite (Conn 8 ''B'') ''y'' None] = None"
  by simp

lemma follow_rejects_write_after_failed_dial:
  "follow ([Conn 7 ''A'', Conn 8 ''B''], 0, None)
     [EvWrite (Conn 7 ''A'') ''x'' (Some ''e''), EvLog ''l'' [], EvClose (Conn 7 ''A''),
      EvDial ''A'' Second (Inl ''no''), EvWrite (Conn 8 ''B'') ''x'' None] = None"
  by simp

text \<open>
  Claim C6. When the write to the connection of a destination fails, the router logs
  the error, closes the connection and dials the address of the destination once, with
  the timeout of one second. When the dial succeeds, the new connection is stored in
  the place of the old one and the pass ends: the packet is not written again. When
  the dial fails, the error is logged and the process ends with status 1. From then on
  the new connection is the one that is used: in the routing of a datagram, in every
  run of the program of \<open>main.go\<close> and in every run of version 0.1, each write goes to
  the connection that the table holds for its destination at that moment, the table
  changes only by a reconnect that succeeds, at the place of the destination whose
  write has just failed, and after a reconnect that fails nothing is written any more.
\<close>

theorem reconnect_replaces_connection:
  "(i < length cs \<and> write_err E (writes w) = Some err \<and> send_one E p i d cs w = (r, w') \<longrightarrow>
      (case dial_err E (dials w) of
         None \<Rightarrow>
           r = Inr (cs[i := Conn (dials w) (Address d)]) \<and>
           since w w' =
             [EvWrite (cs ! i) (packet_for d p) (Some err),
              EvLog ''ERROR: writing to UDP socket - %s'' [ArgErr err],
              EvClose (cs ! i),
              EvDial (Address d) Second (Inr (Conn (dials w) (Address d)))]
       | Some err2 \<Rightarrow>
           r = Inl (Exit 1) \<and>
           since w w' =
             [EvWrite (cs ! i) (packet_for d p) (Some err),
              EvLog ''ERROR: writing to UDP socket - %s'' [ArgErr err],
              EvClose (cs ! i),
              EvDial (Address d) Second (Inl err2),
              EvLog ''ERROR: UDP connection failed - %s'' [ArgErr err2]])) \<and>
   Second = 1000000000 \<and>
   (map RemoteAddr cs = map Address ds \<and> route E data ds cs v = (q, v') \<longrightarrow>
      (\<exists>st. follow (cs, 0, None) (since v v') = Some st \<and>
            (\<forall>cs'. q = Inr cs' \<longrightarrow> st = (cs', 0, None)))) \<and>
   (run E addr ds schedule sys0 u = (x, u') \<longrightarrow>
      (\<exists>st. follow ([], 0, None) (since u u') = Some st \<and>
            (\<forall>s'. x = Inr s' \<longrightarrow> st = (destConns s', 0, None)))) \<and>
   (udpListener_v01 E addr ds passes u = (y, u2) \<longrightarrow>
      (\<exists>st. follow ([], 0, None) (since u u2) = Some st \<and>
            (\<forall>cs'. y = Inr cs' \<longrightarrow> st = (cs', 0, None))))"
proof (intro conjI impI)
  assume "i < length cs \<and> write_err E (writes w) = Some err \<and> send_one E p i d cs w = (r, w')"
  then show "case dial_err E (dials w) of
         None \<Rightarrow>
           r = Inr (cs[i := Conn (dials w) (Address d)]) \<and>
           since w w' =
             [EvWrite (cs ! i) (packet_for d p) (Some err),
              EvLog ''ERROR: writing to UDP socket - %s'' [ArgErr err],
              EvClose (cs ! i),
              EvDial (Address d) Second (Inr (Conn (dials w) (Address d)))]
       | Some err2 \<Rightarrow>
           r = Inl (Exit 1) \<and>
           since w w' =
             [EvWrite (cs ! i) (packet_for d p) (Some err),
              EvLog ''ERROR: writing to UDP socket - %s'' [ArgErr err],
              EvClose (cs ! i),
              EvDial (Address d) Second (Inl err2),
              EvLog ''ERROR: UDP connection failed - %s'' [ArgErr err2]]"
    by (cases "dial_err E (dials w)")
      (auto simp: send_one_def index_def conn_Write_def emit_def packet_for_def Let_def
        log_Printf_def conn_Close_def net_DialTimeout_def log_Fatalf_def since_def)
next
  show "Second = 1000000000"
    by (simp add: Second_def)
next
  assume "map RemoteAddr cs = map Address ds \<and> route E data ds cs v = (q, v')"
  then have "map RemoteAddr cs = map Address ds" and "route E data ds cs v = (q, v')"
    by simp_all
  from route_follow [OF this] obtain new st where "trace v' = trace v @ new"
    and "follow (cs, 0, None) new = Some st" and "\<forall>cs'. q = Inr cs' \<longrightarrow> st = (cs', 0, None)"
    by blast
  then have "follow (cs, 0, None) (since v v') = Some st \<and>
      (\<forall>cs'. q = Inr cs' \<longrightarrow> st = (cs', 0, None))"
    by (simp add: since_append)
  then show "\<exists>st. follow (cs, 0, None) (since v v') = Some st \<and>
      (\<forall>cs'. q = Inr cs' \<longrightarrow> st = (cs', 0, None))"
    by blast
next
  assume go: "run E addr ds schedule sys0 u = (x, u')"
  have "connected sys0 \<longrightarrow> map RemoteAddr (destConns sys0) = map Address ds"
    and "\<not> connected sys0 \<longrightarrow> destConns sys0 = []"
    by (simp_all add: sys0_def)
  from run_follow [OF this go] obtain new st where "trace u' = trace u @ new"
    and "follow (destConns sys0, 0, None) new = Some st"
    and "\<forall>s'. x = Inr s' \<longrightarrow> st = (destConns s', 0, None)"
    by blast
  then have "follow ([], 0, None) (since u u') = Some st \<and>
      (\<forall>s'. x = Inr s' \<longrightarrow> st = (destConns s', 0, None))"
    by (simp add: since_append sys0_def)
  then show "\<exists>st. follow ([], 0, None) (since u u') = Some st \<and>
      (\<forall>s'. x = Inr s' \<longrightarrow> st = (destConns s', 0, None))"
    by blast
next
  assume "udpListener_v01 E addr ds passes u = (y, u2)"
  from udpListener_v01_follow [OF this] obtain new st where "trace u2 = trace u @ new"
    and "follow ([], 0, None) new = Some st" and "\<forall>cs'. y = Inr cs' \<longrightarrow> st = (cs', 0, None)"
    by blast
  then have "follow ([], 0, None) (since u u2) = Some st \<and>
      (\<forall>cs'. y = Inr cs' \<longrightarrow> st = (cs', 0, None))"
    by (simp add: since_append)
  then show "\<exists>st. follow ([], 0, None) (since u u2) = Some st \<and>
      (\<forall>cs'. y = Inr cs' \<longrightarrow> st = (cs', 0, None))"
    by blast
qed

theorem reconnect_replaces_connection_witness:
  "map RemoteAddr [Conn 7 ''127.0.0.1:9001'', Conn 8 ''127.0.0.1:9002''] =
     map Address example_destinations \<and>
   write_err flaky_env (writes world0) = Some ''connection refused'' \<and>
   fst (send_one flaky_env \<lparr>Key = ''stats.a'', Body = ''1''\<rparr> 0 (hd example_destinations)
       [Conn 7 ''127.0.0.1:9001'', Conn 8 ''127.0.0.1:9002''] world0) =
     Inr [Conn 0 ''127.0.0.1:9001'', Conn 8 ''127.0.0.1:9002''] \<and>
   fst (send_one dead_env \<lparr>Key = ''stats.a'', Body = ''1''\<rparr> 0 (hd example_destinations)
       [Conn 7 ''127.0.0.1:9001'', Conn 8 ''127.0.0.1:9002''] world0) = Inl (Exit 1) \<and>
   written_to (since world0 (snd (route flaky_env ''stats.a:1\<newline>stats.b:2'' example_destinations
       [Conn 7 ''127.0.0.1:9001'', Conn 8 ''127.0.0.1:9002''] world0))) =
     [Conn 7 ''127.0.0.1:9001'', Conn 8 ''127.0.0.1:9002'',
      Conn 0 ''127.0.0.1:9001'', Conn 8 ''127.0.0.1:9002''] \<and>
   follow ([Conn 7 ''127.0.0.1:9001'', Conn 8 ''127.0.0.1:9002''], 0, None)
     (since world0 (snd (route flaky_env ''stats.a:1\<newline>stats.b:2'' example_destinations
       [Conn 7 ''127.0.0.1:9001'', Conn 8 ''127.0.0.1:9002''] world0))) =
     Some ([Conn 0 ''127.0.0.1:9001'', Conn 8 ''127.0.0.1:9002''], 0, None) \<and>
   follow ([], 0, None)
     (since world0 (snd (run flaky_env '':8125'' example_destinations
       [Router, Listener, Router, Listener, Router] sys0 world0))) \<noteq> None \<and>
   follow ([], 0, None)
     (since world0 (snd (udpListener_v01 flaky_env '':8125'' example_destinations 2 world0))) \<noteq> None"
proof -
  let ?cs = "[Conn 7 ''127.0.0.1:9001'', Conn 8 ''127.0.0.1:9002'']"
  let ?p = "\<lparr>Key = ''stats.a'', Body = ''1''\<rparr>"
  let ?d = "hd example_destinations"
  let ?flaky = "send_one flaky_env ?p 0 ?d ?cs world0"
  let ?dead = "send_one dead_env ?p 0 ?d ?cs world0"
  let ?route = "route flaky_env ''stats.a:1\<newline>stats.b:2'' example_destinations ?cs world0"
  let ?run = "run flaky_env '':8125'' example_destinations
                [Router, Listener, Router, Listener, Router] sys0 world0"
  let ?v01 = "udpListener_v01 flaky_env '':8125'' example_destinations 2 world0"
  have aligned: "map RemoteAddr ?cs = map Address example_destinations"
    by (simp add: example_destinations_def)
  have wf: "write_err flaky_env (writes world0) = Some ''connection refused''"
    and wd: "write_err dead_env (writes world0) = Some ''connection refused''"
    and df: "dial_err flaky_env (dials world0) = None"
    and dd: "dial_err dead_env (dials world0) = Some ''no route to host''"
    by (simp_all add: flaky_env_def dead_env_def quiet_env_def world0_def)
  have a: "Address ?d = ''127.0.0.1:9001''" and zero: "dials world0 = 0"
    by (simp_all add: example_destinations_def world0_def)
  have parsed: "parseMessage ''stats.a:1\<newline>stats.b:2'' =
      Inr [\<lparr>Key = ''stats.a'', Body = ''1''\<rparr>, \<lparr>Key = ''stats.b'', Body = ''2''\<rparr>]"
    by code_simp
  have keys: "ReplaceAll (anchored_literal ''stats.'') ''stats.a'' ''prod.stats.'' = ''prod.stats.a''"
    "ReplaceAll (anchored_literal ''stats.'') ''stats.a'' ''dev.stats.'' = ''dev.stats.a''"
    "ReplaceAll (anchored_literal ''stats.'') ''stats.b'' ''prod.stats.'' = ''prod.stats.b''"
    "ReplaceAll (anchored_literal ''stats.'') ''stats.b'' ''dev.stats.'' = ''dev.stats.b''"
    by code_simp+
  have routed: "fst ?route = Inr [Conn 0 ''127.0.0.1:9001'', Conn 8 ''127.0.0.1:9002'']"
    and went: "written_to (since world0 (snd ?route)) =
      [Conn 7 ''127.0.0.1:9001'', Conn 8 ''127.0.0.1:9002'',
       Conn 0 ''127.0.0.1:9001'', Conn 8 ''127.0.0.1:9002'']"
    by (simp_all add: route_def parsed keys send_one_def index_def conn_Write_def emit_def
          flaky_env_def quiet_env_def example_destinations_def world0_def Let_def log_Printf_def
          conn_Close_def net_DialTimeout_def Sprintf_s_colon_s_def since_def)
  have "0 < length ?cs \<and> write_err flaky_env (writes world0) = Some ''connection refused'' \<and>
      ?flaky = (fst ?flaky, snd ?flaky)"
    using wf by simp
  with reconnect_replaces_connection [of 0 ?cs flaky_env world0 "''connection refused''" ?p ?d
      "fst ?flaky" "snd ?flaky" example_destinations "''stats.a:1\<newline>stats.b:2''" world0
      "fst ?route" "snd ?route" "'':8125''" "[Router, Listener, Router, Listener, Router]"
      world0 "fst ?run" "snd ?run" 2 "fst ?v01" "snd ?v01"] df aligned
  have "fst ?flaky = Inr (?cs[0 := Conn (dials world0) (Address ?d)])"
    and "\<exists>st. follow (?cs, 0, None) (since world0 (snd ?route)) = Some st \<and>
            (\<forall>cs'. fst ?route = Inr cs' \<longrightarrow> st = (cs', 0, None))"
    and "\<exists>st. follow ([], 0, None) (since world0 (snd ?run)) = Some st \<and>
            (\<forall>s'. fst ?run = Inr s' \<longrightarrow> st = (destConns s', 0, None))"
    and "\<exists>st. follow ([], 0, None) (since world0 (snd ?v01)) = Some st \<and>
            (\<forall>cs'. fst ?v01 = Inr cs' \<longrightarrow> st = (cs', 0, None))"
    by simp_all
  with routed a zero have f1: "fst ?flaky = Inr [Conn 0 ''127.0.0.1:9001'', Conn 8 ''127.0.0.1:9002'']"
    and f2: "follow (?cs, 0, None) (since world0 (snd ?route)) =
        Some ([Conn 0 ''127.0.0.1:9001'', Conn 8 ''127.0.0.1:9002''], 0, None)"
    and f3: "follow ([], 0, None) (since world0 (snd ?run)) \<noteq> None"
    and f4: "follow ([], 0, None) (since world0 (snd ?v01)) \<noteq> None"
    by auto
  have "0 < length ?cs \<and> write_err dead_env (writes world0) = Some ''connection refused'' \<and>
      ?dead = (fst ?dead, snd ?dead)"
    using wd by simp
  with reconnect_replaces_connection [of 0 ?cs dead_env world0 "''connection refused''" ?p ?d
      "fst ?dead" "snd ?dead" example_destinations "''stats.a:1\<newline>stats.b:2''" world0
      "fst ?route" "snd ?route" "'':8125''" "[Router, Listener, Router, Listener, Router]"
      world0 "fst ?run" "snd ?run" 2 "fst ?v01" "snd ?v01"] dd
  have f5: "fst ?dead = Inl (Exit 1)"
    by simp
  from aligned wf f1 f5 went f2 f3 f4 show ?thesis
    by blast
qed

end
